theory Spec2Isabelle
  imports Main "HOL-Library.Char_ord" "HOL-Library.List_Lexorder" "HOL-Library.AList"
    "HOL-Library.Multiset"
begin

section \<open>Data model (builder.go)\<close>

text \<open>
  Go strings and byte slices are byte sequences: both are \<open>char list\<close> here.
  A Go \<open>map[string]T\<close> is an association list with distinct keys. The order of the
  list stands for the order in which a \<open>range\<close> statement visits the entries; the Go
  runtime picks that order afresh for every loop, so the order of such a list is
  arbitrary and differs between two runs on the same input.
\<close>

type_synonym bytes = string

type_synonym 'v gomap = "(string \<times> 'v) list"

text \<open>Indexing a Go map of strings: a missing key (and a nil map) gives the empty string.\<close>

definition mapIndex :: "string gomap \<Rightarrow> string \<Rightarrow> string" where
  "mapIndex m k = (case map_of m k of None \<Rightarrow> [] | Some v \<Rightarrow> v)"

text \<open>The assignment \<open>m[k] = v\<close>.\<close>

definition mapAssign :: "'v gomap \<Rightarrow> string \<Rightarrow> 'v \<Rightarrow> 'v gomap" where
  "mapAssign m k v = AList.update k v m"

record metadata =
  Namespace :: string
  Name :: string
  Labels :: "string gomap"
  Annotations :: "string gomap"

record specNames =
  Plural :: string

record spec =
  Group :: string
  Names :: specNames

record k8sObject =
  Kind :: string
  APIVersion :: string
  Metadata :: metadata
  Spec :: spec
  Data :: "string gomap"
  BinaryData :: "string gomap"
  StringData :: "string gomap"
  Immutable :: bool
  Type :: string
  Raw :: bytes

text \<open>
  Go's \<open>error\<close> values. \<open>Errorf\<close> is an error made by this package with
  \<open>fmt.Errorf\<close>; the others come from the YAML decoder, the base64 decoder and the
  file sink. \<open>ErrTooLong\<close> is the error that \<open>bufio.Scanner\<close> keeps when a token
  does not fit into its buffer. \<open>NilPointerPanic\<close> is the runtime panic of a method
  called through a missing entry of \<open>Builder.dirs\<close>.
\<close>

datatype error =
    Errorf string
  | YamlError string
  | Base64Error string
  | SinkError string
  | ErrTooLong
  | NilPointerPanic

text \<open>
  Functions of the Go standard library and of gopkg.in/yaml.v3 that the package calls and
  whose code is not part of it are parameters of the model: \<open>strings.ToLower\<close>, the
  \<open>%q\<close> verb of \<open>fmt\<close>, \<open>bytes.TrimSpace\<close>, \<open>yaml.Unmarshal\<close> into a
  \<open>k8sObject\<close>, and \<open>base64.StdEncoding.DecodeString\<close>.
\<close>

record golib =
  toLower :: "string \<Rightarrow> string"
  quoted :: "string \<Rightarrow> string"
  trimSpace :: "bytes \<Rightarrow> bytes"
  yamlUnmarshal :: "bytes \<Rightarrow> error + k8sObject"
  base64Decode :: "string \<Rightarrow> error + bytes"

section \<open>Directory routing (builder.go, getTargetDir)\<close>

definition getTargetDir :: "k8sObject \<Rightarrow> string" where
  "getTargetDir obj =
     (if APIVersion obj = ''apiextensions.k8s.io/v1'' \<and> Kind obj = ''CustomResourceDefinition''
      then ''crd''
      else let labels = Labels (Metadata obj) in
        if mapIndex labels ''app.kubernetes.io/component'' \<noteq> []
          then mapIndex labels ''app.kubernetes.io/component''
        else if mapIndex labels ''component'' \<noteq> []
          then mapIndex labels ''component''
        else if mapIndex labels ''app.kubernetes.io/name'' \<noteq> []
          then mapIndex labels ''app.kubernetes.io/name''
        else if mapIndex labels ''app'' \<noteq> []
          then mapIndex labels ''app''
        else [])"

section \<open>String helpers of the filename resolver\<close>

definition charEqual :: "char \<Rightarrow> char \<Rightarrow> bool" where
  "charEqual a b =
     (if a = b then True
      else if a = CHR ''-'' \<and> b = CHR ''_'' then True
      else if a = CHR ''_'' \<and> b = CHR ''-'' then True
      else False)"

text \<open>
  \<open>trimPrefix\<close>: the loop over \<open>i < len(prefix)\<close> returns \<open>s\<close> at the first
  position where the bytes are not \<open>charEqual\<close>; all indices are in range because
  \<open>len(s) \<ge> len(prefix)\<close> was checked first.
\<close>

definition trimPrefix :: "string \<Rightarrow> string \<Rightarrow> string" where
  "trimPrefix s prefix =
     (if length s < length prefix then s
      else let l = length prefix in
        if list_all (\<lambda>i. charEqual (s ! i) (prefix ! i)) [0..<l] then drop l s else s)"

text \<open>\<open>strings.ReplaceAll\<close> with one-byte old and new strings.\<close>

definition replaceAll :: "string \<Rightarrow> char \<Rightarrow> char \<Rightarrow> string" where
  "replaceAll s old new = map (\<lambda>c. if c = old then new else c) s"

definition hasSuffix :: "string \<Rightarrow> string \<Rightarrow> bool" where
  "hasSuffix s suffix =
     (length suffix \<le> length s \<and> drop (length s - length suffix) s = suffix)"

definition trimSuffix :: "string \<Rightarrow> string \<Rightarrow> string" where
  "trimSuffix s suffix =
     (if hasSuffix s suffix then take (length s - length suffix) s else s)"

text \<open>
  \<open>strings.LastIndexAny(s, chars)\<close> for ASCII \<open>chars\<close>: the index of the last byte
  of \<open>s\<close> that is one of \<open>chars\<close>, or -1.
\<close>

definition lastIndexAny :: "string \<Rightarrow> string \<Rightarrow> int" where
  "lastIndexAny s chars =
     (case filter (\<lambda>i. s ! i \<in> set chars) (rev [0..<length s]) of
        [] \<Rightarrow> - 1
      | i # _ \<Rightarrow> int i)"

definition indexOfSeparator :: "string \<Rightarrow> int" where
  "indexOfSeparator s =
     (let idx = lastIndexAny s ''-_'' in if idx = - 1 then - 1 else idx + 1)"

text \<open>
  \<open>longestCommonPrefix\<close>: the outer loop over \<open>i < minLen\<close>; the inner loop over
  \<open>strs[1:]\<close> returns \<open>strs[0][:i]\<close> at the first string whose byte \<open>i\<close> is not
  \<open>charEqual\<close> to that of \<open>strs[0]\<close>.
\<close>

function lcpLoop :: "string \<Rightarrow> string list \<Rightarrow> nat \<Rightarrow> nat \<Rightarrow> string" where
  "lcpLoop s0 rest i minLen =
     (if i < minLen
      then (if list_all (\<lambda>s. charEqual (s ! i) (s0 ! i)) rest
            then lcpLoop s0 rest (Suc i) minLen
            else take i s0)
      else take minLen s0)"
  by pat_completeness auto
termination
  by (relation "measure (\<lambda>(s0, rest, i, minLen). minLen - i)") auto

declare lcpLoop.simps [simp del]

definition longestCommonPrefix :: "string list \<Rightarrow> string" where
  "longestCommonPrefix strs =
     (case strs of
        [] \<Rightarrow> []
      | [s] \<Rightarrow> []
      | s0 # rest \<Rightarrow>
          let minLen = fold (\<lambda>s m. if length s < m then length s else m) rest (length s0)
          in lcpLoop s0 rest 0 minLen)"

section \<open>Naming strategies (getShortName and the filename functions)\<close>

definition getShortName :: "k8sObject \<Rightarrow> string" where
  "getShortName obj =
     (let name = Name (Metadata obj);
          instance = mapIndex (Labels (Metadata obj)) ''app.kubernetes.io/instance'';
          name = (if instance \<noteq> [] then trimPrefix name (instance @ ''-'') else name)
      in replaceAll name CHR '':'' CHR ''_'')"

definition getCRDFilename :: "k8sObject \<Rightarrow> string" where
  "getCRDFilename obj =
     (if Group (Spec obj) = [] \<or> Plural (Names (Spec obj)) = [] then []
      else Group (Spec obj) @ ''_'' @ Plural (Names (Spec obj)) @ ''.yaml'')"

definition getK8sObjectShortFilenameByKind :: "golib \<Rightarrow> k8sObject \<Rightarrow> string" where
  "getK8sObjectShortFilenameByKind L obj = toLower L (Kind obj) @ ''.yaml''"

definition getK8sObjectShortFilenameByName :: "k8sObject \<Rightarrow> string" where
  "getK8sObjectShortFilenameByName obj = getShortName obj @ ''.yaml''"

definition getK8sObjectShortFilenameByNameAndKind :: "golib \<Rightarrow> k8sObject \<Rightarrow> string" where
  "getK8sObjectShortFilenameByNameAndKind L obj =
     getShortName obj @ ''_'' @ toLower L (Kind obj) @ ''.yaml''"

definition getK8sObjectFilenameFull :: "golib \<Rightarrow> k8sObject \<Rightarrow> string" where
  "getK8sObjectFilenameFull L obj =
     (let kind = toLower L (Kind obj);
          kind =
            (if CHR ''.'' \<notin> set (APIVersion obj) \<and> hasSuffix (APIVersion obj) ''/v1''
             then trimSuffix (APIVersion obj) ''/v1'' @ ''_'' @ kind
             else if APIVersion obj \<noteq> ''v1''
             then replaceAll (APIVersion obj) CHR ''/'' CHR ''_'' @ ''_'' @ kind
             else kind)
      in getShortName obj @ ''_'' @ kind @ ''.yaml'')"

definition getGeneratorObjectShortFilenameByKey :: "k8sObject \<Rightarrow> string \<Rightarrow> string" where
  "getGeneratorObjectShortFilenameByKey obj key = key"

definition getGeneratorObjectShortFilenameByKeyAndKind ::
    "golib \<Rightarrow> k8sObject \<Rightarrow> string \<Rightarrow> string" where
  "getGeneratorObjectShortFilenameByKeyAndKind L obj key = toLower L (Kind obj) @ ''_'' @ key"

definition getGeneratorObjectFilenameByKeyAndName :: "k8sObject \<Rightarrow> string \<Rightarrow> string" where
  "getGeneratorObjectFilenameByKeyAndName obj key = getShortName obj @ ''_'' @ key"

definition getGeneratorObjectFilenameFull :: "golib \<Rightarrow> k8sObject \<Rightarrow> string \<Rightarrow> string" where
  "getGeneratorObjectFilenameFull L obj key =
     getShortName obj @ ''_'' @ toLower L (Kind obj) @ ''_'' @ key"

section \<open>Filename resolution (isUniqueFilenameFunc..., selectUniqueFilenameFunc...)\<close>

record filesObject =
  k8sObj :: k8sObject
  files :: "bytes gomap"

record kustomizationBuilder =
  k8sObjects :: "k8sObject list"
  configMapObjects :: "filesObject list"
  secretObjects :: "filesObject list"
  resources :: "string list"

text \<open>The reserved names \<open>uniq\<close>, a \<open>map[string]struct{}\<close>, are a set of strings.\<close>

definition fillMap :: "string set \<Rightarrow> string list \<Rightarrow> string set" where
  "fillMap uniq items = fold insert items uniq"

fun uniqueLoopK8s ::
    "k8sObject list \<Rightarrow> string set \<Rightarrow> (k8sObject \<Rightarrow> string) \<Rightarrow> string list \<Rightarrow> string set
      \<Rightarrow> string list option" where
  "uniqueLoopK8s [] uniq fn items localUniq = Some items"
| "uniqueLoopK8s (obj # objects) uniq fn items localUniq =
     (let name = fn obj in
      if name = [] then None
      else if name \<in> uniq then None
      else if name \<in> localUniq then None
      else uniqueLoopK8s objects uniq fn (items @ [name]) (insert name localUniq))"

definition isUniqueFilenameFuncForK8sObjects ::
    "k8sObject list \<Rightarrow> string set \<Rightarrow> (k8sObject \<Rightarrow> string) \<Rightarrow> string list option" where
  "isUniqueFilenameFuncForK8sObjects objects uniq fn = uniqueLoopK8s objects uniq fn [] {}"

text \<open>The inner loop of \<open>isUniqueFilenameFunc\<close>, over the entries of one \<open>obj.files\<close>.\<close>

fun uniqueLoopKeys ::
    "k8sObject \<Rightarrow> bytes gomap \<Rightarrow> string set \<Rightarrow> (k8sObject \<Rightarrow> string \<Rightarrow> string)
      \<Rightarrow> string list \<Rightarrow> string set \<Rightarrow> (string list \<times> string set) option" where
  "uniqueLoopKeys obj [] uniq fn items localUniq = Some (items, localUniq)"
| "uniqueLoopKeys obj ((key, payload) # entries) uniq fn items localUniq =
     (let name = fn obj key in
      if name = [] then None
      else if name \<in> uniq then None
      else if name \<in> localUniq then None
      else uniqueLoopKeys obj entries uniq fn (items @ [name]) (insert name localUniq))"

fun uniqueLoopFiles ::
    "filesObject list \<Rightarrow> string set \<Rightarrow> (k8sObject \<Rightarrow> string \<Rightarrow> string)
      \<Rightarrow> string list \<Rightarrow> string set \<Rightarrow> string list option" where
  "uniqueLoopFiles [] uniq fn items localUniq = Some items"
| "uniqueLoopFiles (obj # objects) uniq fn items localUniq =
     (case uniqueLoopKeys (k8sObj obj) (files obj) uniq fn items localUniq of
        None \<Rightarrow> None
      | Some (items', localUniq') \<Rightarrow> uniqueLoopFiles objects uniq fn items' localUniq')"

definition isUniqueFilenameFunc ::
    "filesObject list \<Rightarrow> string set \<Rightarrow> (k8sObject \<Rightarrow> string \<Rightarrow> string) \<Rightarrow> string list option" where
  "isUniqueFilenameFunc objects uniq fn = uniqueLoopFiles objects uniq fn [] {}"

definition removeK8sObjectsPrefix :: "(k8sObject \<Rightarrow> string) \<Rightarrow> string \<Rightarrow> k8sObject \<Rightarrow> string" where
  "removeK8sObjectsPrefix fn prefix = (\<lambda>obj. trimPrefix (fn obj) prefix)"

definition removeGeneratorObjectPrefix ::
    "(k8sObject \<Rightarrow> string \<Rightarrow> string) \<Rightarrow> string \<Rightarrow> k8sObject \<Rightarrow> string \<Rightarrow> string" where
  "removeGeneratorObjectPrefix fn prefix = (\<lambda>obj key. trimPrefix (fn obj key) prefix)"

text \<open>
  The loop \<open>for i, fun := range funcs\<close> of \<open>selectUniqueFilenameFuncForK8sObjects\<close>.
  The Go function returns the chosen filename function and fills \<open>uniq\<close> in place; the
  model returns the function together with the new \<open>uniq\<close>, and \<open>None\<close> for \<open>nil\<close>.
\<close>

fun selectLoopK8s ::
    "nat \<Rightarrow> (k8sObject \<Rightarrow> string) list \<Rightarrow> k8sObject list \<Rightarrow> string set
      \<Rightarrow> ((k8sObject \<Rightarrow> string) \<times> string set) option" where
  "selectLoopK8s i [] objects uniq = None"
| "selectLoopK8s i (fn # funcs) objects uniq =
     (case isUniqueFilenameFuncForK8sObjects objects uniq fn of
        None \<Rightarrow> selectLoopK8s (Suc i) funcs objects uniq
      | Some items \<Rightarrow>
          if i = 0 then Some (fn, fillMap uniq items)
          else let prefix = longestCommonPrefix items in
            if prefix = [] then Some (fn, fillMap uniq items)
            else let index = indexOfSeparator prefix in
              if index \<le> 0 then Some (fn, fillMap uniq items)
              else let newFunc = removeK8sObjectsPrefix fn (take (nat index) prefix) in
                (case isUniqueFilenameFuncForK8sObjects objects uniq newFunc of
                   Some newItems \<Rightarrow> Some (newFunc, fillMap uniq newItems)
                 | None \<Rightarrow> Some (fn, fillMap uniq items)))"

definition k8sObjectFilenameFuncs :: "golib \<Rightarrow> (k8sObject \<Rightarrow> string) list" where
  "k8sObjectFilenameFuncs L =
     [getCRDFilename,
      getK8sObjectShortFilenameByKind L,
      getK8sObjectShortFilenameByName,
      getK8sObjectShortFilenameByNameAndKind L,
      getK8sObjectFilenameFull L]"

definition selectUniqueFilenameFuncForK8sObjects ::
    "golib \<Rightarrow> k8sObject list \<Rightarrow> string set \<Rightarrow> ((k8sObject \<Rightarrow> string) \<times> string set) option" where
  "selectUniqueFilenameFuncForK8sObjects L objects uniq =
     selectLoopK8s 0 (k8sObjectFilenameFuncs L) objects uniq"

fun selectLoopFiles ::
    "(k8sObject \<Rightarrow> string \<Rightarrow> string) list \<Rightarrow> filesObject list \<Rightarrow> string set
      \<Rightarrow> ((k8sObject \<Rightarrow> string \<Rightarrow> string) \<times> string set) option" where
  "selectLoopFiles [] objects uniq = None"
| "selectLoopFiles (fn # funcs) objects uniq =
     (case isUniqueFilenameFunc objects uniq fn of
        None \<Rightarrow> selectLoopFiles funcs objects uniq
      | Some items \<Rightarrow>
          let prefix = longestCommonPrefix items in
          if prefix = [] then Some (fn, fillMap uniq items)
          else let index = indexOfSeparator prefix in
            if index \<le> 0 then Some (fn, fillMap uniq items)
            else let newFunc = removeGeneratorObjectPrefix fn (take (nat index) prefix) in
              (case isUniqueFilenameFunc objects uniq newFunc of
                 Some newItems \<Rightarrow> Some (newFunc, fillMap uniq newItems)
               | None \<Rightarrow> Some (fn, fillMap uniq items)))"

definition generatorObjectFilenameFuncs :: "golib \<Rightarrow> (k8sObject \<Rightarrow> string \<Rightarrow> string) list" where
  "generatorObjectFilenameFuncs L =
     [getGeneratorObjectShortFilenameByKey,
      getGeneratorObjectShortFilenameByKeyAndKind L,
      getGeneratorObjectFilenameByKeyAndName,
      getGeneratorObjectFilenameFull L]"

definition selectUniqueFilenameFuncForFiles ::
    "golib \<Rightarrow> filesObject list \<Rightarrow> string set
      \<Rightarrow> ((k8sObject \<Rightarrow> string \<Rightarrow> string) \<times> string set) option" where
  "selectUniqueFilenameFuncForFiles L objects uniq =
     selectLoopFiles (generatorObjectFilenameFuncs L) objects uniq"

section \<open>Manifest emission (kustomizationBuilder.Build and its writers)\<close>

text \<open>
  The file sink \<open>writeFile\<close> is a collaborator with effects: it takes the state of the
  outside world and returns its error (or \<open>None\<close> for \<open>nil\<close>) with the new state.
  The buffer \<open>buf\<close> is passed and returned.
\<close>

type_synonym 'st writeFile = "string \<Rightarrow> bytes \<Rightarrow> 'st \<Rightarrow> error option \<times> 'st"

fun writeObjectsLoop ::
    "k8sObject list \<Rightarrow> (k8sObject \<Rightarrow> string) \<Rightarrow> 'st writeFile \<Rightarrow> bytes \<Rightarrow> 'st
      \<Rightarrow> error option \<times> bytes \<times> 'st" where
  "writeObjectsLoop [] filenameFunc writeFile buf st = (None, buf, st)"
| "writeObjectsLoop (obj # objects) filenameFunc writeFile buf st =
     (let name = filenameFunc obj in
      case writeFile name (Raw obj) st of
        (Some err, st') \<Rightarrow> (Some err, buf, st')
      | (None, st') \<Rightarrow>
          writeObjectsLoop objects filenameFunc writeFile (buf @ ''- '' @ name @ ''\<newline>'') st')"

definition writeResources ::
    "bytes \<Rightarrow> string list \<Rightarrow> k8sObject list \<Rightarrow> (k8sObject \<Rightarrow> string) \<Rightarrow> 'st writeFile \<Rightarrow> 'st
      \<Rightarrow> error option \<times> bytes \<times> 'st" where
  "writeResources buf rs objects filenameFunc writeFile st =
     (if 0 < length rs \<or> 0 < length objects
      then let buf = buf @ ''\<newline>resources:\<newline>'';
               buf = fold (\<lambda>resource buf. buf @ ''- '' @ resource @ ''\<newline>'') rs buf
           in writeObjectsLoop objects filenameFunc writeFile buf st
      else (None, buf, st))"

fun writeFilesLoop ::
    "bytes gomap \<Rightarrow> (k8sObject \<Rightarrow> string \<Rightarrow> string) \<Rightarrow> k8sObject \<Rightarrow> 'st writeFile \<Rightarrow> bytes \<Rightarrow> 'st
      \<Rightarrow> error option \<times> bytes \<times> 'st" where
  "writeFilesLoop [] filenameFunc obj writeFile buf st = (None, buf, st)"
| "writeFilesLoop ((key, payload) # entries) filenameFunc obj writeFile buf st =
     (let name = filenameFunc obj key in
      case writeFile name payload st of
        (Some err, st') \<Rightarrow> (Some err, buf, st')
      | (None, st') \<Rightarrow>
          writeFilesLoop entries filenameFunc obj writeFile
            (if name \<noteq> key
             then buf @ ''  - '' @ key @ ''='' @ name @ ''\<newline>''
             else buf @ ''  - '' @ key @ ''\<newline>'') st')"

definition writeFiles ::
    "bytes \<Rightarrow> bytes gomap \<Rightarrow> (k8sObject \<Rightarrow> string \<Rightarrow> string) \<Rightarrow> k8sObject \<Rightarrow> 'st writeFile \<Rightarrow> 'st
      \<Rightarrow> error option \<times> bytes \<times> 'st" where
  "writeFiles buf fs filenameFunc obj writeFile st =
     writeFilesLoop fs filenameFunc obj writeFile (buf @ ''  files:\<newline>'') st"

definition writeMapFields :: "golib \<Rightarrow> bytes \<Rightarrow> string \<Rightarrow> string gomap \<Rightarrow> bytes" where
  "writeMapFields L buf fieldName entries =
     (if 0 < length entries
      then fold (\<lambda>(key, val) buf.
                  buf @ ''      '' @ quoted L key @ '': '' @ quoted L val @ ''\<newline>'')
             entries (buf @ ''    '' @ fieldName @ '':\<newline>'')
      else buf)"

fun writeGeneratorsLoop ::
    "golib \<Rightarrow> string \<Rightarrow> filesObject list \<Rightarrow> (k8sObject \<Rightarrow> string \<Rightarrow> string) \<Rightarrow> 'st writeFile
      \<Rightarrow> bytes \<Rightarrow> 'st \<Rightarrow> error option \<times> bytes \<times> 'st" where
  "writeGeneratorsLoop L generatorType [] filenameFunc writeFile buf st = (None, buf, st)"
| "writeGeneratorsLoop L generatorType (obj # objects) filenameFunc writeFile buf st =
     (let m = Metadata (k8sObj obj);
          buf = buf @ ''- name: '' @ Name m @ ''\<newline>'';
          buf = (if Namespace m \<noteq> [] then buf @ ''  namespace: '' @ Namespace m @ ''\<newline>''
                 else buf);
          buf = (if generatorType = ''secretGenerator'' \<and> Type (k8sObj obj) \<noteq> []
                 then buf @ ''  type: '' @ Type (k8sObj obj) @ ''\<newline>'' else buf);
          buf = buf @ ''  options:\<newline>'';
          buf = buf @ ''    disableNameSuffixHash: true\<newline>'';
          buf = writeMapFields L buf ''annotations'' (Annotations m);
          buf = writeMapFields L buf ''labels'' (Labels m);
          buf = (if Immutable (k8sObj obj) then buf @ ''    immutable: true\<newline>'' else buf)
      in case writeFiles buf (files obj) filenameFunc (k8sObj obj) writeFile st of
           (Some err, buf', st') \<Rightarrow> (Some err, buf', st')
         | (None, buf', st') \<Rightarrow>
             writeGeneratorsLoop L generatorType objects filenameFunc writeFile buf' st')"

definition writeGenerators ::
    "golib \<Rightarrow> bytes \<Rightarrow> string \<Rightarrow> filesObject list \<Rightarrow> (k8sObject \<Rightarrow> string \<Rightarrow> string)
      \<Rightarrow> 'st writeFile \<Rightarrow> 'st \<Rightarrow> error option \<times> bytes \<times> 'st" where
  "writeGenerators L buf generatorType objects filenameFunc writeFile st =
     (if 0 < length objects
      then writeGeneratorsLoop L generatorType objects filenameFunc writeFile
             (buf @ ''\<newline>'' @ generatorType @ '':\<newline>'') st
      else (None, buf, st))"

definition manifestHeader :: bytes where
  "manifestHeader = ''apiVersion: kustomize.config.k8s.io/v1beta1\<newline>kind: Kustomization\<newline>''"

text \<open>The seed of \<open>uniq\<close> in \<open>Build\<close>: the manifest's own name and the sub-directory references.\<close>

definition initialUniq :: "kustomizationBuilder \<Rightarrow> string set" where
  "initialUniq k = fold insert (resources k) {''kustomization.yaml''}"

definition kustomizationBuilder_Build ::
    "golib \<Rightarrow> kustomizationBuilder \<Rightarrow> 'st writeFile \<Rightarrow> 'st \<Rightarrow> error option \<times> 'st" where
  "kustomizationBuilder_Build L k writeFile st =
     (let uniq = initialUniq k in
      case selectUniqueFilenameFuncForK8sObjects L (k8sObjects k) uniq of
        None \<Rightarrow> (Some (Errorf ''no unique filename for k8s objects''), st)
      | Some (k8sObjectFilenameFunc, uniq) \<Rightarrow>
      (case selectUniqueFilenameFuncForFiles L (configMapObjects k) uniq of
        None \<Rightarrow> (Some (Errorf ''no unique filename for config map objects''), st)
      | Some (configMapObjectFilenameFunc, uniq) \<Rightarrow>
      (case selectUniqueFilenameFuncForFiles L (secretObjects k) uniq of
        None \<Rightarrow> (Some (Errorf ''no unique filename for secret objects''), st)
      | Some (secretObjectFilenameFunc, uniq) \<Rightarrow>
      (case writeResources manifestHeader (resources k) (k8sObjects k)
              k8sObjectFilenameFunc writeFile st of
        (Some err, buf, st) \<Rightarrow> (Some err, st)
      | (None, buf, st) \<Rightarrow>
      (case writeGenerators L buf ''configMapGenerator'' (configMapObjects k)
              configMapObjectFilenameFunc writeFile st of
        (Some err, buf, st) \<Rightarrow> (Some err, st)
      | (None, buf, st) \<Rightarrow>
      (case writeGenerators L buf ''secretGenerator'' (secretObjects k)
              secretObjectFilenameFunc writeFile st of
        (Some err, buf, st) \<Rightarrow> (Some err, st)
      | (None, buf, st) \<Rightarrow> writeFile ''kustomization.yaml'' buf st))))))"

section \<open>The Builder (builder.go)\<close>

record Builder =
  dirs :: "kustomizationBuilder gomap"

definition newKustomizationBuilder :: kustomizationBuilder where
  "newKustomizationBuilder =
     \<lparr>k8sObjects = [], configMapObjects = [], secretObjects = [], resources = []\<rparr>"

definition NewBuilder :: Builder where
  "NewBuilder = \<lparr>dirs = [([], newKustomizationBuilder)]\<rparr>"

definition AddK8sObject :: "k8sObject \<Rightarrow> kustomizationBuilder \<Rightarrow> kustomizationBuilder" where
  "AddK8sObject obj k = k\<lparr>k8sObjects := k8sObjects k @ [obj]\<rparr>"

definition AddConfigMapObjects :: "filesObject \<Rightarrow> kustomizationBuilder \<Rightarrow> kustomizationBuilder" where
  "AddConfigMapObjects obj k = k\<lparr>configMapObjects := configMapObjects k @ [obj]\<rparr>"

definition AddSecretObjects :: "filesObject \<Rightarrow> kustomizationBuilder \<Rightarrow> kustomizationBuilder" where
  "AddSecretObjects obj k = k\<lparr>secretObjects := secretObjects k @ [obj]\<rparr>"

definition AddResource :: "string \<Rightarrow> kustomizationBuilder \<Rightarrow> kustomizationBuilder" where
  "AddResource resource k = k\<lparr>resources := resources k @ [resource]\<rparr>"

text \<open>
  \<open>getKustomization\<close> returns the pointer \<open>b.dirs[dir]\<close>; the model returns the
  updated Builder and the key \<open>dir\<close>, and \<open>atDir\<close> is a method called through that
  pointer. \<open>b.dirs[""].AddResource\<close> panics when the root entry is missing.
\<close>

definition getKustomization :: "Builder \<Rightarrow> k8sObject \<Rightarrow> error + (Builder \<times> string)" where
  "getKustomization b obj =
     (let dir = getTargetDir obj in
      if map_of (dirs b) dir = None
      then (let ds = mapAssign (dirs b) dir newKustomizationBuilder in
            case map_of ds [] of
              None \<Rightarrow> Inl NilPointerPanic
            | Some root \<Rightarrow> Inr (b\<lparr>dirs := mapAssign ds [] (AddResource dir root)\<rparr>, dir))
      else Inr (b, dir))"

definition atDir :: "Builder \<Rightarrow> string \<Rightarrow> (kustomizationBuilder \<Rightarrow> kustomizationBuilder) \<Rightarrow> error + Builder" where
  "atDir b dir method =
     (case map_of (dirs b) dir of
        None \<Rightarrow> Inl NilPointerPanic
      | Some k \<Rightarrow> Inr (b\<lparr>dirs := mapAssign (dirs b) dir (method k)\<rparr>))"

text \<open>The loop \<open>for key, value := range m { files[key] = []byte(value) }\<close>.\<close>

definition assignPlain :: "string gomap \<Rightarrow> bytes gomap \<Rightarrow> bytes gomap" where
  "assignPlain m fs = fold (\<lambda>(key, val) fs. mapAssign fs key val) m fs"

text \<open>The loop that decodes every value with base64 and returns the first error.\<close>

fun assignDecoded :: "golib \<Rightarrow> string gomap \<Rightarrow> bytes gomap \<Rightarrow> error + bytes gomap" where
  "assignDecoded L [] fs = Inr fs"
| "assignDecoded L ((key, val) # m) fs =
     (case base64Decode L val of
        Inl err \<Rightarrow> Inl err
      | Inr payload \<Rightarrow> assignDecoded L m (mapAssign fs key payload))"

text \<open>The file group that \<open>handleConfigMap\<close> builds before it stores it.\<close>

definition configMapFileGroup :: "golib \<Rightarrow> k8sObject \<Rightarrow> error + filesObject" where
  "configMapFileGroup L obj =
     (let fs = assignPlain (Data obj) [] in
      case assignDecoded L (BinaryData obj) fs of
        Inl err \<Rightarrow> Inl err
      | Inr fs \<Rightarrow> Inr \<lparr>k8sObj = obj, files = fs\<rparr>)"

definition handleConfigMap :: "golib \<Rightarrow> Builder \<Rightarrow> k8sObject \<Rightarrow> error + Builder" where
  "handleConfigMap L b obj =
     (case configMapFileGroup L obj of
        Inl err \<Rightarrow> Inl err
      | Inr fileGroup \<Rightarrow>
          (case getKustomization b obj of
             Inl err \<Rightarrow> Inl err
           | Inr (b, dir) \<Rightarrow> atDir b dir (AddConfigMapObjects fileGroup)))"

text \<open>The file group that \<open>handleSecret\<close> builds before it stores it.\<close>

definition secretFileGroup :: "golib \<Rightarrow> k8sObject \<Rightarrow> error + filesObject" where
  "secretFileGroup L obj =
     (case assignDecoded L (Data obj) [] of
        Inl err \<Rightarrow> Inl err
      | Inr fs \<Rightarrow> Inr \<lparr>k8sObj = obj, files = assignPlain (StringData obj) fs\<rparr>)"

definition handleSecret :: "golib \<Rightarrow> Builder \<Rightarrow> k8sObject \<Rightarrow> error + Builder" where
  "handleSecret L b obj =
     (case secretFileGroup L obj of
        Inl err \<Rightarrow> Inl err
      | Inr fileGroup \<Rightarrow>
          (case getKustomization b obj of
             Inl err \<Rightarrow> Inl err
           | Inr (b, dir) \<Rightarrow> atDir b dir (AddSecretObjects fileGroup)))"

definition handleGenericResource :: "Builder \<Rightarrow> k8sObject \<Rightarrow> error + Builder" where
  "handleGenericResource b obj =
     (case getKustomization b obj of
        Inl err \<Rightarrow> Inl err
      | Inr (b, dir) \<Rightarrow> atDir b dir (AddK8sObject obj))"

definition handleResourceType :: "golib \<Rightarrow> Builder \<Rightarrow> k8sObject \<Rightarrow> error + Builder" where
  "handleResourceType L b obj =
     (if APIVersion obj = ''v1'' \<and> Kind obj = ''ConfigMap'' then handleConfigMap L b obj
      else if APIVersion obj = ''v1'' \<and> Kind obj = ''Secret'' then handleSecret L b obj
      else handleGenericResource b obj)"

definition emptyK8sObject :: k8sObject where
  "emptyK8sObject =
     \<lparr>Kind = [], APIVersion = [],
      Metadata = \<lparr>Namespace = [], Name = [], Labels = [], Annotations = []\<rparr>,
      Spec = \<lparr>Group = [], Names = \<lparr>Plural = []\<rparr>\<rparr>,
      Data = [], BinaryData = [], StringData = [], Immutable = False, Type = [], Raw = []\<rparr>"

definition parseYAMLObject :: "golib \<Rightarrow> bytes \<Rightarrow> k8sObject \<times> bool \<times> error option" where
  "parseYAMLObject L data =
     (case yamlUnmarshal L data of
        Inl err \<Rightarrow> (emptyK8sObject, True, Some err)
      | Inr obj \<Rightarrow>
          if Kind obj = [] \<or> APIVersion obj = [] \<or> Name (Metadata obj) = []
          then (emptyK8sObject, True, None)
          else (obj, False, None))"

section \<open>The document scanner (splitYAMLDocument under bufio.Scanner)\<close>

definition yamlSeparator :: bytes where
  "yamlSeparator = ''\<newline>---''"

text \<open>\<open>bytes.Index\<close>: the index of the first occurrence, \<open>None\<close> for -1.\<close>

fun bytesIndex :: "bytes \<Rightarrow> bytes \<Rightarrow> nat option" where
  "bytesIndex [] sep = (if sep = [] then Some 0 else None)"
| "bytesIndex (x # xs) sep =
     (if take (length sep) (x # xs) = sep then Some 0
      else map_option Suc (bytesIndex xs sep))"

text \<open>\<open>bytes.IndexByte\<close>.\<close>

fun indexByte :: "bytes \<Rightarrow> char \<Rightarrow> nat option" where
  "indexByte [] c = None"
| "indexByte (x # xs) c = (if x = c then Some 0 else map_option Suc (indexByte xs c))"

text \<open>
  \<open>splitYAMLDocument\<close> returns \<open>(advance, token, err)\<close> with \<open>err\<close> always nil; the
  model returns the advance and the token, \<open>None\<close> for the nil token.
\<close>

definition splitYAMLDocument :: "bytes \<Rightarrow> bool \<Rightarrow> nat \<times> bytes option" where
  "splitYAMLDocument data atEOF =
     (if atEOF \<and> length data = 0 then (0, None)
      else let sep = length yamlSeparator in
        case bytesIndex data yamlSeparator of
          Some i0 \<Rightarrow>
            (let i = i0 + sep; after = drop i data in
             if length after = 0
             then (if atEOF then (length data, Some (take (length data - sep) data))
                   else (0, None))
             else (case indexByte after CHR 0x0A of
                     Some j \<Rightarrow> (i + j + 1, Some (take (i - sep) data))
                   | None \<Rightarrow> (0, None)))
        | None \<Rightarrow> if atEOF then (length data, Some data) else (0, None))"

text \<open>
  \<open>newScanner\<close> gives the scanner a buffer that grows up to \<open>maxTokenSize\<close> bytes.
\<close>

definition maxTokenSize :: nat where
  "maxTokenSize = 5 * 1024 * 1024"

text \<open>
  The loop \<open>for scanner.Scan()\<close> of \<open>bufio.Scanner\<close> over the unread rest of the
  stream. \<open>Scan\<close> calls the split function on the unread bytes in its buffer, without
  the end-of-stream flag as long as the reader has not reported the end, and reads more
  when the function returns no token. A token found in a part of the buffer is the token
  found in the whole buffer (lemma \<open>split_partial_buffer\<close>), so the model calls the
  function once, on the first \<open>maxTokenSize\<close> unread bytes. When this gives no token
  and the buffer is full, \<open>Scan\<close> keeps \<open>ErrTooLong\<close> and returns false; when the
  stream ends before the buffer is full, the function is called with the flag set, and
  scanning stops when it returns no token. The reader reports the end of the stream with
  a read of its own, as \<open>os.File\<close> does. The result is the list of the tokens that
  \<open>Scan\<close> delivers and the value of \<open>scanner.Err()\<close> after the loop. A token
  returned at the end of the stream consumes the whole rest (lemma
  \<open>split_eof_token_consumes\<close>), so the call of \<open>Scan\<close> after it sees no input.
  Every emitted token advances the input (lemma \<open>split_token_advances\<close>), so the
  branches \<open>advance = 0 \<or> length data < advance\<close>, which make the recursion
  well-founded, are never taken.
\<close>

function scannerRun :: "bytes \<Rightarrow> bytes list \<times> error option" where
  "scannerRun data =
     (case splitYAMLDocument (take maxTokenSize data) False of
        (advance, Some token) \<Rightarrow>
          if advance = 0 \<or> length data < advance then ([token], None)
          else (case scannerRun (drop advance data) of
                  (tokens, err) \<Rightarrow> (token # tokens, err))
      | (advance, None) \<Rightarrow>
          if maxTokenSize \<le> length data then ([], Some ErrTooLong)
          else (case splitYAMLDocument data True of
                  (advance, None) \<Rightarrow> ([], None)
                | (advance, Some token) \<Rightarrow>
                    if advance = 0 \<or> length data < advance then ([token], None)
                    else (case scannerRun (drop advance data) of
                            (tokens, err) \<Rightarrow> (token # tokens, err))))"
  by pat_completeness auto
termination
  by (relation "measure length") auto

declare scannerRun.simps [simp del]

text \<open>
  The tokens that the loop of \<open>Process\<close> sees. \<open>Process\<close> returns nil when the loop
  ends and never calls \<open>scanner.Err()\<close>, so the error of the scanner is dropped.
\<close>

definition scanDocuments :: "bytes \<Rightarrow> bytes list" where
  "scanDocuments stream = fst (scannerRun stream)"

section \<open>Process and Build of the Builder\<close>

fun processLoop :: "golib \<Rightarrow> Builder \<Rightarrow> bytes list \<Rightarrow> error + Builder" where
  "processLoop L b [] = Inr b"
| "processLoop L b (token # tokens) =
     (let data = trimSpace L token in
      if length data = 0 then processLoop L b tokens
      else case parseYAMLObject L data of
        (obj, skip, Some err) \<Rightarrow> Inl err
      | (obj, skip, None) \<Rightarrow>
          if skip then processLoop L b tokens
          else (case handleResourceType L b (obj\<lparr>Raw := data\<rparr>) of
                  Inl err \<Rightarrow> Inl err
                | Inr b' \<Rightarrow> processLoop L b' tokens))"

definition Process :: "golib \<Rightarrow> Builder \<Rightarrow> bytes \<Rightarrow> error + Builder" where
  "Process L b stream = processLoop L b (scanDocuments stream)"

type_synonym 'st writeFileFunc = "string \<Rightarrow> string \<Rightarrow> bytes \<Rightarrow> 'st \<Rightarrow> error option \<times> 'st"

fun buildLoop ::
    "golib \<Rightarrow> Builder \<Rightarrow> string list \<Rightarrow> 'st writeFileFunc \<Rightarrow> 'st \<Rightarrow> error option \<times> 'st" where
  "buildLoop L b [] writeFile st = (None, st)"
| "buildLoop L b (dir # sortedDirs) writeFile st =
     (case map_of (dirs b) dir of
        None \<Rightarrow> (Some NilPointerPanic, st)
      | Some k \<Rightarrow>
          (case kustomizationBuilder_Build L k (\<lambda>name data. writeFile dir name data) st of
             (Some err, st') \<Rightarrow> (Some err, st')
           | (None, st') \<Rightarrow> buildLoop L b sortedDirs writeFile st'))"

definition Builder_Build :: "golib \<Rightarrow> Builder \<Rightarrow> 'st writeFileFunc \<Rightarrow> 'st \<Rightarrow> error option \<times> 'st" where
  "Builder_Build L b writeFile st =
     (let sortedDirs = sort (map fst (dirs b)) in buildLoop L b sortedDirs writeFile st)"

text \<open>
  A sink that records every call. Whether a call fails is decided by \<open>fails\<close> from the
  calls made before and the call itself, which covers every deterministic sink.
\<close>

type_synonym putCall = "string \<times> string \<times> bytes"

definition recordingSink :: "(putCall list \<Rightarrow> putCall \<Rightarrow> error option) \<Rightarrow> putCall list writeFileFunc" where
  "recordingSink fails dir name data log = (fails log (dir, name, data), log @ [(dir, name, data)])"

section \<open>The calls a run makes to the sink\<close>

text \<open>
  Definitions for stating what a run writes. \<open>resolveNames\<close> is the first half of
  \<open>kustomizationBuilder.Build\<close>: the three selections, each on the reserved names the one
  before left, with the error \<open>Build\<close> returns when one fails. \<open>fileCalls\<close> lists the
  file writes of a directory in the order \<open>Build\<close> makes them, \<open>manifestBytes\<close> is the
  text the writers put into the buffer when no write fails, \<open>putAll\<close> makes a list of
  calls on the recording sink up to the first failure, and \<open>plannedCalls\<close> lists the
  calls of a whole run in which no write fails, directory by directory, up to the first
  directory whose names cannot be resolved.
\<close>

type_synonym filenameFuncs =
  "(k8sObject \<Rightarrow> string) \<times> (k8sObject \<Rightarrow> string \<Rightarrow> string) \<times> (k8sObject \<Rightarrow> string \<Rightarrow> string)"

definition resolveNames :: "golib \<Rightarrow> kustomizationBuilder \<Rightarrow> error + filenameFuncs" where
  "resolveNames L k =
     (case selectUniqueFilenameFuncForK8sObjects L (k8sObjects k) (initialUniq k) of
        None \<Rightarrow> Inl (Errorf ''no unique filename for k8s objects'')
      | Some (f1, u1) \<Rightarrow>
      (case selectUniqueFilenameFuncForFiles L (configMapObjects k) u1 of
        None \<Rightarrow> Inl (Errorf ''no unique filename for config map objects'')
      | Some (f2, u2) \<Rightarrow>
      (case selectUniqueFilenameFuncForFiles L (secretObjects k) u2 of
        None \<Rightarrow> Inl (Errorf ''no unique filename for secret objects'')
      | Some (f3, u3) \<Rightarrow> Inr (f1, f2, f3))))"

definition objectCalls :: "(k8sObject \<Rightarrow> string) \<Rightarrow> k8sObject list \<Rightarrow> (string \<times> bytes) list" where
  "objectCalls f objects = map (\<lambda>obj. (f obj, Raw obj)) objects"

definition entryCalls ::
    "(k8sObject \<Rightarrow> string \<Rightarrow> string) \<Rightarrow> filesObject list \<Rightarrow> (string \<times> bytes) list" where
  "entryCalls f objects =
     concat (map (\<lambda>obj. map (\<lambda>(key, payload). (f (k8sObj obj) key, payload)) (files obj)) objects)"

definition fileCalls :: "filenameFuncs \<Rightarrow> kustomizationBuilder \<Rightarrow> (string \<times> bytes) list" where
  "fileCalls fs k =
     (case fs of (f1, f2, f3) \<Rightarrow>
        objectCalls f1 (k8sObjects k) @ entryCalls f2 (configMapObjects k)
          @ entryCalls f3 (secretObjects k))"

definition neverFails :: "'st writeFile" where
  "neverFails name data st = (None, st)"

definition manifestBytes :: "golib \<Rightarrow> filenameFuncs \<Rightarrow> kustomizationBuilder \<Rightarrow> bytes" where
  "manifestBytes L fs k =
     (case fs of (f1, f2, f3) \<Rightarrow>
        let buf = fst (snd (writeResources manifestHeader (resources k) (k8sObjects k) f1
                              neverFails ()));
            buf = fst (snd (writeGenerators L buf ''configMapGenerator'' (configMapObjects k) f2
                              neverFails ()))
        in fst (snd (writeGenerators L buf ''secretGenerator'' (secretObjects k) f3
                       neverFails ())))"

fun putAll ::
    "(putCall list \<Rightarrow> putCall \<Rightarrow> error option) \<Rightarrow> string \<Rightarrow> (string \<times> bytes) list \<Rightarrow> putCall list
      \<Rightarrow> error option \<times> putCall list" where
  "putAll fails dir [] log = (None, log)"
| "putAll fails dir ((name, data) # calls) log =
     (case fails log (dir, name, data) of
        Some err \<Rightarrow> (Some err, log @ [(dir, name, data)])
      | None \<Rightarrow> putAll fails dir calls (log @ [(dir, name, data)]))"


definition entryCallsOf :: "(k8sObject \<Rightarrow> string \<Rightarrow> string) \<Rightarrow> k8sObject \<Rightarrow> bytes gomap \<Rightarrow> (string \<times> bytes) list" where
  "entryCallsOf f obj entries = map (\<lambda>(key, payload). (f obj key, payload)) entries"


definition tagCalls :: "string \<Rightarrow> (string \<times> bytes) list \<Rightarrow> putCall list" where
  "tagCalls dir calls = map (\<lambda>(name, data). (dir, name, data)) calls"

definition dirPlan :: "golib \<Rightarrow> Builder \<Rightarrow> string \<Rightarrow> error + (string \<times> bytes) list" where
  "dirPlan L b dir =
     (case map_of (dirs b) dir of
        None \<Rightarrow> Inl NilPointerPanic
      | Some k \<Rightarrow>
          (case resolveNames L k of
             Inl err \<Rightarrow> Inl err
           | Inr fs \<Rightarrow> Inr (fileCalls fs k @ [(''kustomization.yaml'', manifestBytes L fs k)])))"

fun plannedCalls :: "golib \<Rightarrow> Builder \<Rightarrow> string list \<Rightarrow> putCall list" where
  "plannedCalls L b [] = []"
| "plannedCalls L b (dir # ds) =
     (case dirPlan L b dir of
        Inl err \<Rightarrow> []
      | Inr calls \<Rightarrow> tagCalls dir calls @ plannedCalls L b ds)"

definition callKey :: "putCall \<Rightarrow> string \<times> string" where
  "callKey c = (fst c, fst (snd c))"


section \<open>Specification-side definitions and concrete inputs\<close>



text \<open>The label keys that routing inspects, in priority order.\<close>

definition labelPriority :: "string list" where
  "labelPriority =
     [''app.kubernetes.io/component'', ''component'', ''app.kubernetes.io/name'', ''app'']"

text \<open>
  The three acceptance conditions of a batch of names against the reserved names: every
  name is non-empty, the names are pairwise distinct, and none is reserved.
\<close>

definition acceptable :: "string list \<Rightarrow> string set \<Rightarrow> bool" where
  "acceptable names uniq = ([] \<notin> set names \<and> distinct names \<and> set names \<inter> uniq = {})"

text \<open>The names a filename function gives to the entries of a list of file groups, in order.\<close>

definition entryNames :: "(k8sObject \<Rightarrow> string \<Rightarrow> string) \<Rightarrow> filesObject list \<Rightarrow> string list" where
  "entryNames fn objects =
     concat (map (\<lambda>obj. map (\<lambda>(key, payload). fn (k8sObj obj) key) (files obj)) objects)"

text \<open>
  Refinement as the specification words it. \<open>-\<close> and \<open>_\<close> are the separators and
  count as one character; \<open>specCommonPrefix\<close> is the longest common prefix of all names
  of a batch under that identification (for a batch of one name, the name itself);
  \<open>specStripLength\<close> is the length of a prefix up to and including its last separator,
  0 when it has none; \<open>specRefined\<close> strips that much from every name.
\<close>

definition isSeparator :: "char \<Rightarrow> bool" where
  "isSeparator c = (c = CHR ''-'' \<or> c = CHR ''_'')"

definition sepClass :: "char \<Rightarrow> char" where
  "sepClass c = (if c = CHR ''_'' then CHR ''-'' else c)"

fun commonPrefix2 :: "string \<Rightarrow> string \<Rightarrow> string" where
  "commonPrefix2 (a # as) (b # bs) =
     (if sepClass a = sepClass b then a # commonPrefix2 as bs else [])"
| "commonPrefix2 p t = []"

definition specCommonPrefix :: "string list \<Rightarrow> string" where
  "specCommonPrefix names =
     (case names of [] \<Rightarrow> [] | s # ss \<Rightarrow> fold (\<lambda>t p. commonPrefix2 p t) ss s)"

definition specStripLength :: "string \<Rightarrow> nat" where
  "specStripLength p = length p - length (takeWhile (\<lambda>c. \<not> isSeparator c) (rev p))"

definition specRefined :: "string list \<Rightarrow> string list" where
  "specRefined names = map (drop (specStripLength (specCommonPrefix names))) names"

text \<open>
  The names that the selected whole-resource filename function gives to the batch, with the
  reserved names after the selection.
\<close>

definition selectedK8sNames :: "golib \<Rightarrow> k8sObject list \<Rightarrow> string set \<Rightarrow> (string list \<times> string set) option" where
  "selectedK8sNames L objects uniq =
     map_option (\<lambda>(f, u). (map f objects, u))
       (selectUniqueFilenameFuncForK8sObjects L objects uniq)"

text \<open>
  Two lists of file groups, or two aggregators, that differ only in the order in which the
  entries of each \<open>files\<close> map are visited. \<open>commonLen k names\<close> says that all names
  agree on their first \<open>k\<close> bytes up to the identification of the separators, and
  \<open>refinePrefix\<close> is the prefix that the selection loops strip, if any.
\<close>

definition sameFileGroups :: "filesObject list \<Rightarrow> filesObject list \<Rightarrow> bool" where
  "sameFileGroups xs ys =
     list_all2 (\<lambda>x y. k8sObj x = k8sObj y \<and> mset (files x) = mset (files y)) xs ys"

definition sameAggregator :: "kustomizationBuilder \<Rightarrow> kustomizationBuilder \<Rightarrow> bool" where
  "sameAggregator k k' =
     (k8sObjects k = k8sObjects k' \<and> resources k = resources k'
      \<and> sameFileGroups (configMapObjects k) (configMapObjects k')
      \<and> sameFileGroups (secretObjects k) (secretObjects k'))"

definition commonLen :: "nat \<Rightarrow> string list \<Rightarrow> bool" where
  "commonLen k names =
     (\<forall>t \<in> set names. k \<le> length t
        \<and> (\<forall>s \<in> set names. map sepClass (take k t) = map sepClass (take k s)))"

definition refinePrefix :: "string list \<Rightarrow> string option" where
  "refinePrefix items =
     (let prefix = longestCommonPrefix items in
      if prefix = [] then None
      else let index = indexOfSeparator prefix in
        if index \<le> 0 then None else Some (take (nat index) prefix))"


text \<open>
  An instance of the library parameters for the concrete inputs below: lower-casing and
  white-space trimming of ASCII, quoting without escapes, a base64 decoder that knows two
  words, and a YAML decoder that knows the example documents.
\<close>

definition asciiToLower :: "string \<Rightarrow> string" where
  "asciiToLower s =
     map (\<lambda>c. case map_of (zip ''ABCDEFGHIJKLMNOPQRSTUVWXYZ'' ''abcdefghijklmnopqrstuvwxyz'') c of
                Some l \<Rightarrow> l
              | None \<Rightarrow> c) s"

definition isAsciiSpace :: "char \<Rightarrow> bool" where
  "isAsciiSpace c = (c \<in> set [CHR 0x09, CHR 0x0A, CHR 0x0B, CHR 0x0C, CHR 0x0D, CHR '' ''])"

definition asciiTrimSpace :: "bytes \<Rightarrow> bytes" where
  "asciiTrimSpace s = rev (dropWhile isAsciiSpace (rev (dropWhile isAsciiSpace s)))"

definition exampleBase64 :: "string \<Rightarrow> error + bytes" where
  "exampleBase64 s =
     (if s = ''aGk='' then Inr ''hi''
      else if s = ''eW8='' then Inr ''yo''
      else Inl (Base64Error ''illegal base64 data''))"

definition mkObject :: "string \<Rightarrow> string \<Rightarrow> string \<Rightarrow> string gomap \<Rightarrow> k8sObject" where
  "mkObject kind apiVersion name labels =
     emptyK8sObject\<lparr>Kind := kind, APIVersion := apiVersion,
       Metadata := \<lparr>Namespace = [], Name = name, Labels = labels, Annotations = []\<rparr>\<rparr>"

definition docDeployment :: bytes where
  "docDeployment = ''kind: Deployment\<newline>apiVersion: apps/v1\<newline>metadata: {name: web}''"

definition docComment :: bytes where
  "docComment = ''# only a comment''"

definition docMalformed :: bytes where
  "docMalformed = ''kind: [''"

definition docSep :: bytes where
  "docSep = ''\<newline>---\<newline>''"

definition exampleUnmarshal :: "bytes \<Rightarrow> error + k8sObject" where
  "exampleUnmarshal data =
     (if data = docDeployment then Inr (mkObject ''Deployment'' ''apps/v1'' ''web'' [])
      else if data = docComment then Inr emptyK8sObject
      else Inl (YamlError ''yaml: did not find expected node content''))"

definition exampleLib :: golib where
  "exampleLib =
     \<lparr>toLower = asciiToLower, quoted = (\<lambda>s. [CHR 0x22] @ s @ [CHR 0x22]),
      trimSpace = asciiTrimSpace, yamlUnmarshal = exampleUnmarshal,
      base64Decode = exampleBase64\<rparr>"

definition webDeployment :: k8sObject where
  "webDeployment = (mkObject ''Deployment'' ''apps/v1'' ''web'' [])\<lparr>Raw := docDeployment\<rparr>"

definition dupConfigMap :: k8sObject where
  "dupConfigMap = (mkObject ''ConfigMap'' ''v1'' ''cfg'' [])
     \<lparr>Data := [(''k'', ''plain'')], BinaryData := [(''k'', ''aGk='')]\<rparr>"

definition dupSecret :: k8sObject where
  "dupSecret = (mkObject ''Secret'' ''v1'' ''sec'' [])
     \<lparr>Data := [(''k'', ''aGk='')], StringData := [(''k'', ''plain'')]\<rparr>"

definition twoWebs :: "k8sObject list" where
  "twoWebs =
     [(mkObject ''Deployment'' ''apps/v1'' ''web'' [])
        \<lparr>Metadata := \<lparr>Namespace = ''blue'', Name = ''web'', Labels = [], Annotations = []\<rparr>\<rparr>,
      (mkObject ''Deployment'' ''apps/v1'' ''web'' [])
        \<lparr>Metadata := \<lparr>Namespace = ''green'', Name = ''web'', Labels = [], Annotations = []\<rparr>\<rparr>]"

definition webService :: k8sObject where
  "webService = mkObject ''Service'' ''v1'' ''web'' []"

definition svcPair :: "k8sObject list" where
  "svcPair = [mkObject ''Deployment'' ''apps/v1'' ''svc-api'' [],
              mkObject ''Deployment'' ''apps/v1'' ''svc-web'' []]"

definition loneKustomization :: k8sObject where
  "loneKustomization = mkObject ''Kustomization'' ''kustomize.config.k8s.io/v1beta1'' ''my-app'' []"

definition apiDeployment :: k8sObject where
  "apiDeployment = (mkObject ''Deployment'' ''apps/v1'' ''api'' [(''app'', ''api'')])
     \<lparr>Raw := ''kind: Deployment # api''\<rparr>"

definition shopDeployment :: k8sObject where
  "shopDeployment = (mkObject ''Deployment'' ''apps/v1'' ''shop'' [(''app'', ''shop'')])
     \<lparr>Raw := ''kind: Deployment # shop''\<rparr>"

definition shopConfigMap :: k8sObject where
  "shopConfigMap = (mkObject ''ConfigMap'' ''v1'' ''shop-pages'' [(''app'', ''shop'')])
     \<lparr>Data := [(''index.html'', ''<h1>hi</h1>''), (''about.html'', ''<p>us</p>'')],
      Raw := ''kind: ConfigMap # shop-pages''\<rparr>"

definition exampleBuilder :: Builder where
  "exampleBuilder =
     \<lparr>dirs =
        [([], \<lparr>k8sObjects = [], configMapObjects = [], secretObjects = [],
               resources = [''api'', ''shop'']\<rparr>),
         (''api'', \<lparr>k8sObjects = [apiDeployment], configMapObjects = [], secretObjects = [],
               resources = []\<rparr>),
         (''shop'', \<lparr>k8sObjects = [shopDeployment],
               configMapObjects =
                 [\<lparr>k8sObj = shopConfigMap,
                   files = [(''index.html'', ''<h1>hi</h1>''), (''about.html'', ''<p>us</p>'')]\<rparr>],
               secretObjects = [], resources = []\<rparr>)]\<rparr>"

definition shopDir :: kustomizationBuilder where
  "shopDir =
     \<lparr>k8sObjects = [shopDeployment],
      configMapObjects =
        [\<lparr>k8sObj = shopConfigMap,
          files = [(''index.html'', ''<h1>hi</h1>''), (''about.html'', ''<p>us</p>'')]\<rparr>],
      secretObjects = [], resources = []\<rparr>"

definition exampleLog :: "putCall list" where
  "exampleLog =
     [([], ''kustomization.yaml'', manifestHeader @ ''\<newline>resources:\<newline>- api\<newline>- shop\<newline>''),
      (''api'', ''deployment.yaml'', ''kind: Deployment # api''),
      (''api'', ''kustomization.yaml'', manifestHeader @ ''\<newline>resources:\<newline>- deployment.yaml\<newline>''),
      (''shop'', ''deployment.yaml'', ''kind: Deployment # shop''),
      (''shop'', ''index.html'', ''<h1>hi</h1>''),
      (''shop'', ''about.html'', ''<p>us</p>''),
      (''shop'', ''kustomization.yaml'',
         manifestHeader @ ''\<newline>resources:\<newline>- deployment.yaml\<newline>''
           @ ''\<newline>configMapGenerator:\<newline>- name: shop-pages\<newline>''
           @ ''  options:\<newline>    disableNameSuffixHash: true\<newline>''
           @ ''    labels:\<newline>      '' @ [CHR 0x22] @ ''app'' @ [CHR 0x22] @ '': ''
           @ [CHR 0x22] @ ''shop'' @ [CHR 0x22] @ ''\<newline>''
           @ ''  files:\<newline>  - index.html\<newline>  - about.html\<newline>'')]"

definition shopDirSwapped :: kustomizationBuilder where
  "shopDirSwapped =
     \<lparr>k8sObjects = [shopDeployment],
      configMapObjects =
        [\<lparr>k8sObj = shopConfigMap,
          files = [(''about.html'', ''<p>us</p>''), (''index.html'', ''<h1>hi</h1>'')]\<rparr>],
      secretObjects = [], resources = []\<rparr>"

definition shopManifest :: "string \<Rightarrow> string \<Rightarrow> bytes" where
  "shopManifest first second =
     manifestHeader @ ''\<newline>resources:\<newline>- deployment.yaml\<newline>''
       @ ''\<newline>configMapGenerator:\<newline>- name: shop-pages\<newline>''
       @ ''  options:\<newline>    disableNameSuffixHash: true\<newline>''
       @ ''    labels:\<newline>      '' @ [CHR 0x22] @ ''app'' @ [CHR 0x22] @ '': ''
       @ [CHR 0x22] @ ''shop'' @ [CHR 0x22] @ ''\<newline>''
       @ ''  files:\<newline>  - '' @ first @ ''\<newline>  - '' @ second @ ''\<newline>''"





section \<open>Theorems\<close>

lemmas example_defs = exampleLib_def exampleUnmarshal_def exampleBase64_def asciiTrimSpace_def
  isAsciiSpace_def asciiToLower_def mkObject_def emptyK8sObject_def docDeployment_def
  docComment_def docMalformed_def docSep_def webDeployment_def dupConfigMap_def dupSecret_def twoWebs_def webService_def
  svcPair_def loneKustomization_def apiDeployment_def shopDeployment_def shopConfigMap_def

lemmas builder_defs = NewBuilder_def newKustomizationBuilder_def handleResourceType_def
  handleGenericResource_def handleConfigMap_def handleSecret_def getKustomization_def
  atDir_def getTargetDir_def mapIndex_def mapAssign_def AddK8sObject_def AddResource_def
  AddConfigMapObjects_def AddSecretObjects_def parseYAMLObject_def


lemmas name_defs = getK8sObjectFilenameFull_def getK8sObjectShortFilenameByNameAndKind_def
  getK8sObjectShortFilenameByName_def getK8sObjectShortFilenameByKind_def getCRDFilename_def
  getShortName_def k8sObjectFilenameFuncs_def hasSuffix_def trimSuffix_def replaceAll_def
  mapIndex_def trimPrefix_def

subsection \<open>Routing\<close>

text \<open>
  C7. Routing is a total function of the resource. A resource with apiVersion
  \<open>apiextensions.k8s.io/v1\<close> and kind \<open>CustomResourceDefinition\<close> goes to \<open>crd\<close>
  whatever its labels are; any other resource goes to the first non-empty value among the
  labels app.kubernetes.io/component, component, app.kubernetes.io/name, app, in that order,
  and to the root directory (the empty name) when none of them is present and non-empty.
\<close>

theorem getTargetDir_routing:
  "getTargetDir obj =
     (if APIVersion obj = ''apiextensions.k8s.io/v1'' \<and> Kind obj = ''CustomResourceDefinition''
      then ''crd''
      else case find (\<lambda>v. v \<noteq> []) (map (mapIndex (Labels (Metadata obj))) labelPriority) of
             Some v \<Rightarrow> v
           | None \<Rightarrow> [])"
  by (simp add: getTargetDir_def labelPriority_def Let_def)

subsection \<open>File groups of ConfigMaps and Secrets\<close>

lemma map_of_mapAssign: "map_of (mapAssign fs k v) = (map_of fs)(k \<mapsto> v)"
  by (simp add: mapAssign_def update_conv')

lemma distinct_mapAssign: "distinct (map fst fs) \<Longrightarrow> distinct (map fst (mapAssign fs k v))"
  by (simp add: mapAssign_def distinct_update)






lemma assignDecoded_fails:
  "(\<exists>e. assignDecoded L m fs = Inl e) \<longleftrightarrow>
     (\<exists>(k, v) \<in> set m. \<exists>e. base64Decode L v = Inl e)"
proof (induction m arbitrary: fs)
  case Nil
  then show ?case by simp
next
  case (Cons x m)
  obtain k v where x: "x = (k, v)" by (cases x)
  show ?case
  proof (cases "base64Decode L v")
    case (Inl e)
    then show ?thesis by (auto simp: x)
  next
    case (Inr p)
    with Cons.IH[of "mapAssign fs k p"] show ?thesis by (auto simp: x)
  qed
qed




subsection \<open>The document scanner\<close>

lemma bytesIndex_bound:
  "bytesIndex data sep = Some i \<Longrightarrow> i + length sep \<le> length data \<and> take (length sep) (drop i data) = sep"
proof (induction data arbitrary: i)
  case Nil
  then show ?case by (simp split: if_splits)
next
  case (Cons x xs)
  show ?case
  proof (cases "take (length sep) (x # xs) = sep")
    case True
    then have "length (take (length sep) (x # xs)) = length sep"
      by simp
    then have "length sep \<le> length (x # xs)"
      by simp
    with True Cons.prems show ?thesis by simp
  next
    case False
    with Cons.prems obtain j where "bytesIndex xs sep = Some j" "i = Suc j" by auto
    with Cons.IH show ?thesis by simp
  qed
qed

lemma take_append_le: "n \<le> length xs \<Longrightarrow> take n (xs @ ys) = take n xs"
  by simp

lemma bytesIndex_append:
  "bytesIndex xs sep = Some i \<Longrightarrow> bytesIndex (xs @ ys) sep = Some i"
proof (induction xs arbitrary: i)
  case Nil
  then show ?case by (cases ys) (simp_all split: if_splits)
next
  case (Cons x xs)
  show ?case
  proof (cases "take (length sep) (x # xs) = sep")
    case True
    then have "length (take (length sep) (x # xs)) = length sep"
      by simp
    then have "length sep \<le> length (x # xs)"
      by simp
    then have "take (length sep) ((x # xs) @ ys) = take (length sep) (x # xs)"
      by (rule take_append_le)
    with True Cons.prems show ?thesis by simp
  next
    case False
    with Cons.prems obtain j where j: "bytesIndex xs sep = Some j" "i = Suc j" by auto
    from bytesIndex_bound[OF j(1)] have "length sep \<le> length (x # xs)" by simp
    then have "take (length sep) ((x # xs) @ ys) = take (length sep) (x # xs)"
      by (rule take_append_le)
    with False have "take (length sep) ((x # xs) @ ys) \<noteq> sep" by simp
    with j Cons.IH show ?thesis by simp
  qed
qed

lemma indexByte_bound:
  "indexByte xs c = Some j \<Longrightarrow> j < length xs \<and> xs ! j = c \<and> c \<notin> set (take j xs)"
  by (induction xs arbitrary: j) (auto split: if_splits)

lemma indexByte_append:
  "indexByte xs c = Some j \<Longrightarrow> indexByte (xs @ ys) c = Some j"
  by (induction xs arbitrary: j) (auto split: if_splits)

lemma indexByte_line:
  "c \<notin> set line \<Longrightarrow> indexByte (line @ c # rest) c = Some (length line)"
  by (induction line) auto

lemma bytesIndex_marker:
  "bytesIndex pre yamlSeparator = None \<Longrightarrow>
     bytesIndex (pre @ yamlSeparator @ after) yamlSeparator = Some (length pre)"
proof (induction pre)
  case Nil
  then show ?case by (simp add: yamlSeparator_def)
next
  case (Cons x xs)
  from Cons.prems have no: "take (length yamlSeparator) (x # xs) \<noteq> yamlSeparator"
    and rest: "bytesIndex xs yamlSeparator = None"
    by (auto split: if_splits)
  have "take (length yamlSeparator) ((x # xs) @ yamlSeparator @ after) \<noteq> yamlSeparator"
    using no
    by (cases xs; cases "tl xs"; cases "tl (tl xs)")
       (auto simp: yamlSeparator_def eval_nat_numeral)
  with Cons.IH[OF rest] show ?case by simp
qed

lemma bytesIndex_take:
  assumes "bytesIndex data sep = None"
  shows "bytesIndex (take n data) sep = None"
proof (cases "bytesIndex (take n data) sep")
  case None
  then show ?thesis .
next
  case (Some i)
  from bytesIndex_append[OF Some, of "drop n data"] assms show ?thesis by simp
qed

lemma bytesIndex_first:
  assumes "bytesIndex data sep = Some i" and "sep \<noteq> []"
  shows "bytesIndex (take i data) sep = None"
proof (cases "bytesIndex (take i data) sep")
  case None
  then show ?thesis .
next
  case (Some j)
  from bytesIndex_append[OF Some, of "drop i data"] assms(1) have "j = i" by simp
  with bytesIndex_bound[OF Some] assms(2) show ?thesis by (cases sep) simp_all
qed

lemma bytesIndex_replicate:
  "c \<noteq> CHR 0x0A \<Longrightarrow> bytesIndex (replicate n c) yamlSeparator = None"
  by (induction n) (auto simp: yamlSeparator_def)

lemma length_yamlSeparator [simp]: "length yamlSeparator = 4"
  by (simp add: yamlSeparator_def)

lemma yamlSeparator_nonempty [simp]: "yamlSeparator \<noteq> []"
  by (simp add: yamlSeparator_def)

lemma split_token_advances:
  "splitYAMLDocument data atEOF = (advance, Some token) \<Longrightarrow> 0 < advance \<and> advance \<le> length data"
  by (auto simp: splitYAMLDocument_def Let_def
        split: if_splits option.splits dest!: bytesIndex_bound indexByte_bound)

lemma split_no_marker:
  "bytesIndex data yamlSeparator = None \<Longrightarrow> data \<noteq> [] \<Longrightarrow>
     splitYAMLDocument data True = (length data, Some data)"
  by (simp add: splitYAMLDocument_def)

lemma split_no_marker_buffer:
  "bytesIndex data yamlSeparator = None \<Longrightarrow> splitYAMLDocument data False = (0, None)"
  by (simp add: splitYAMLDocument_def)

lemma split_marker_line:
  assumes "bytesIndex pre yamlSeparator = None" and "CHR 0x0A \<notin> set line"
  shows "splitYAMLDocument (pre @ yamlSeparator @ line @ CHR 0x0A # rest) atEOF =
           (length pre + length yamlSeparator + length line + 1, Some pre)"
proof -
  let ?data = "pre @ yamlSeparator @ line @ CHR 0x0A # rest"
  have i: "bytesIndex ?data yamlSeparator = Some (length pre)"
    using assms(1) by (rule bytesIndex_marker)
  have a: "drop (length pre + length yamlSeparator) ?data = line @ CHR 0x0A # rest"
    by simp
  have j: "indexByte (line @ CHR 0x0A # rest) CHR 0x0A = Some (length line)"
    using assms(2) by (rule indexByte_line)
  show ?thesis
    unfolding splitYAMLDocument_def Let_def i a
    by (simp add: j del: length_yamlSeparator)
qed


lemma indexByte_None: "c \<notin> set xs \<Longrightarrow> indexByte xs c = None"
  by (induction xs) auto

lemma split_marker_open:
  assumes "bytesIndex pre yamlSeparator = None" and "CHR 0x0A \<notin> set line" and "line \<noteq> []"
  shows "splitYAMLDocument (pre @ yamlSeparator @ line) atEOF = (0, None)"
proof -
  let ?data = "pre @ yamlSeparator @ line"
  have i: "bytesIndex ?data yamlSeparator = Some (length pre)"
    using assms(1) by (rule bytesIndex_marker)
  have a: "drop (length pre + length yamlSeparator) ?data = line"
    by simp
  have j: "indexByte line CHR 0x0A = None"
    using assms(2) by (rule indexByte_None)
  show ?thesis
    unfolding splitYAMLDocument_def Let_def i a
    using assms(3) by (simp add: j del: length_yamlSeparator)
qed

text \<open>
  The split function sees at most the first \<open>maxTokenSize\<close> unread bytes in the model. A
  token that it returns from a buffer holding only the first \<open>n\<close> bytes, before the end
  of the stream is known, is the token it returns from the whole rest.
\<close>

lemma split_partial_buffer:
  assumes "splitYAMLDocument (take n data) False = (advance, Some token)"
  shows "splitYAMLDocument data atEOF = (advance, Some token)"
proof -
  let ?p = "take n data"
  from assms obtain i0 where i0: "bytesIndex ?p yamlSeparator = Some i0"
    by (auto simp: splitYAMLDocument_def Let_def split: option.splits if_splits)
  let ?i = "i0 + length yamlSeparator"
  from assms i0 obtain j where
    after: "drop ?i ?p \<noteq> []" and j: "indexByte (drop ?i ?p) CHR 0x0A = Some j"
    and adv: "advance = ?i + j + 1" and tok: "token = take (?i - length yamlSeparator) ?p"
    by (auto simp: splitYAMLDocument_def Let_def split: option.splits if_splits)
  have d: "data = ?p @ drop n data" by simp
  have i0': "bytesIndex data yamlSeparator = Some i0"
    using bytesIndex_append[OF i0, of "drop n data"] by simp
  from bytesIndex_bound[OF i0] have le: "?i \<le> length ?p" by simp
  have "drop ?i data = drop ?i ?p @ drop n data"
    using le by (subst d) (simp del: append_take_drop_id)
  then have j': "indexByte (drop ?i data) CHR 0x0A = Some j" and ne: "drop ?i data \<noteq> []"
    using indexByte_append[OF j, of "drop n data"] after by auto
  from le have "i0 \<le> n" by simp
  then have "take i0 ?p = take i0 data" by (simp add: min_def)
  then show ?thesis
    using i0' j' ne adv tok after
    by (auto simp: splitYAMLDocument_def Let_def)
qed

lemma split_buffer_none:
  assumes "splitYAMLDocument data True = (advance, r)"
    and "r = None \<or> maxTokenSize < advance"
  shows "snd (splitYAMLDocument (take maxTokenSize data) False) = None"
proof (cases "splitYAMLDocument (take maxTokenSize data) False")
  case (Pair a t)
  show ?thesis
  proof (cases t)
    case None
    with Pair show ?thesis by simp
  next
    case (Some token)
    from split_partial_buffer[OF Pair[unfolded Some], of True] assms(1)
    have "a = advance" "r = Some token" by simp_all
    moreover from split_token_advances[OF Pair[unfolded Some]] have "a \<le> maxTokenSize" by simp
    ultimately show ?thesis using assms(2) by simp
  qed
qed

lemma split_eof_token_consumes:
  assumes "snd (splitYAMLDocument data False) = None"
    and "splitYAMLDocument data True = (advance, Some token)"
  shows "advance = length data"
  using assms
  by (auto simp: splitYAMLDocument_def Let_def split: if_splits option.splits)

subsection \<open>The scanner loop\<close>

lemma scannerRun_token:
  assumes "splitYAMLDocument (take maxTokenSize data) False = (advance, Some token)"
  shows "scannerRun data =
           (token # fst (scannerRun (drop advance data)), snd (scannerRun (drop advance data)))"
proof -
  from split_token_advances[OF assms] have "0 < advance" "advance \<le> length data" by simp_all
  then show ?thesis
    by (subst scannerRun.simps) (simp add: assms split: prod.splits)
qed

lemma scannerRun_too_long:
  assumes "snd (splitYAMLDocument (take maxTokenSize data) False) = None"
    and "maxTokenSize \<le> length data"
  shows "scannerRun data = ([], Some ErrTooLong)"
  using assms by (subst scannerRun.simps) (auto split: prod.splits option.splits)

lemma scannerRun_eof:
  assumes "snd (splitYAMLDocument (take maxTokenSize data) False) = None"
    and "length data < maxTokenSize"
  shows "scannerRun data =
           (case splitYAMLDocument data True of
              (advance, None) \<Rightarrow> ([], None)
            | (advance, Some token) \<Rightarrow>
                (token # fst (scannerRun (drop advance data)), snd (scannerRun (drop advance data))))"
proof (cases "splitYAMLDocument data True")
  case (Pair advance r)
  show ?thesis
  proof (cases r)
    case None
    with Pair assms show ?thesis
      by (subst scannerRun.simps) (auto split: prod.splits option.splits)
  next
    case (Some token)
    from split_token_advances[OF Pair[unfolded Some]]
    have "0 < advance" "advance \<le> length data" by simp_all
    with Pair Some assms show ?thesis
      by (subst scannerRun.simps) (auto split: prod.splits option.splits)
  qed
qed

text \<open>
  A stream shorter than the buffer is scanned as if there were no bound: the split
  function is applied to the whole unread rest.
\<close>

lemma scannerRun_small:
  assumes "length data < maxTokenSize"
  shows "scannerRun data =
           (case splitYAMLDocument data True of
              (advance, None) \<Rightarrow> ([], None)
            | (advance, Some token) \<Rightarrow>
                (token # fst (scannerRun (drop advance data)), snd (scannerRun (drop advance data))))"
proof (cases "splitYAMLDocument (take maxTokenSize data) False")
  case (Pair advance r)
  show ?thesis
  proof (cases r)
    case None
    with Pair have "snd (splitYAMLDocument (take maxTokenSize data) False) = None" by simp
    then show ?thesis using assms by (rule scannerRun_eof)
  next
    case (Some token)
    from split_partial_buffer[OF Pair[unfolded Some], of True] scannerRun_token[OF Pair[unfolded Some]]
    show ?thesis by simp
  qed
qed

lemma scanDocuments_small:
  assumes "length data < maxTokenSize"
  shows "scanDocuments data =
           (case splitYAMLDocument data True of
              (advance, None) \<Rightarrow> []
            | (advance, Some token) \<Rightarrow> token # scanDocuments (drop advance data))"
  unfolding scanDocuments_def scannerRun_small[OF assms]
  by (simp split: prod.splits option.splits)

lemma scannerRun_Nil: "scannerRun [] = ([], None)"
  by (subst scannerRun_small) (simp_all add: maxTokenSize_def splitYAMLDocument_def)

lemma scan_no_marker:
  assumes "bytesIndex pre yamlSeparator = None" and "pre \<noteq> []" and "length pre < maxTokenSize"
  shows "scannerRun pre = ([pre], None)"
  by (subst scannerRun_small[OF assms(3)])
     (simp add: split_no_marker[OF assms(1,2)] scannerRun_Nil)

lemma scan_no_marker_too_long:
  assumes "bytesIndex pre yamlSeparator = None" and "maxTokenSize \<le> length pre"
  shows "scannerRun (pre @ rest) = ([], Some ErrTooLong)"
proof -
  have t: "take maxTokenSize (pre @ rest) = take maxTokenSize pre"
    using assms(2) by simp
  have "bytesIndex (take maxTokenSize pre) yamlSeparator = None"
    using assms(1) by (rule bytesIndex_take)
  then have "snd (splitYAMLDocument (take maxTokenSize (pre @ rest)) False) = None"
    unfolding t by (simp add: split_no_marker_buffer)
  then show ?thesis
    using assms(2) by (intro scannerRun_too_long) simp_all
qed



lemma scan_marker_open:
  assumes "bytesIndex pre yamlSeparator = None" and "CHR 0x0A \<notin> set line" and "line \<noteq> []"
  shows "scannerRun (pre @ yamlSeparator @ line) =
           ([], if length (pre @ yamlSeparator @ line) < maxTokenSize then None else Some ErrTooLong)"
proof -
  let ?data = "pre @ yamlSeparator @ line"
  note s = split_marker_open[OF assms, of True]
  have n: "snd (splitYAMLDocument (take maxTokenSize ?data) False) = None"
    by (rule split_buffer_none[OF s]) simp
  show ?thesis
  proof (cases "length ?data < maxTokenSize")
    case True
    from scannerRun_eof[OF n True] s True show ?thesis by simp
  next
    case False
    then have "maxTokenSize \<le> length ?data" by simp
    from scannerRun_too_long[OF n this] False show ?thesis by simp
  qed
qed

lemma scan_marker_line:
  assumes "bytesIndex pre yamlSeparator = None" and "CHR 0x0A \<notin> set line"
    and "length (pre @ yamlSeparator @ line @ [CHR 0x0A]) \<le> maxTokenSize"
  shows "scannerRun (pre @ yamlSeparator @ line @ [CHR 0x0A] @ rest) =
           (pre # fst (scannerRun rest), snd (scannerRun rest))"
proof -
  let ?head = "pre @ yamlSeparator @ line @ [CHR 0x0A]"
  let ?n = "length pre + length yamlSeparator + length line + 1"
  have "take maxTokenSize ?head = ?head"
    using assms(3) by (rule take_all)
  then have t: "take maxTokenSize (?head @ rest) = ?head @ take (maxTokenSize - length ?head) rest"
    by (simp only: take_append)
  have "splitYAMLDocument (take maxTokenSize (?head @ rest)) False = (?n, Some pre)"
    unfolding t using split_marker_line[OF assms(1,2), of "take (maxTokenSize - length ?head) rest" False]
    by simp
  from scannerRun_token[OF this] show ?thesis by simp
qed


text \<open>
  Every stream has one of the four shapes of the next theorem: it holds no newline
  followed by three dashes, or its first marker ends the stream, or stands on a line that
  the stream does not end, or stands on a line that ends with a newline.
\<close>

lemma stream_shape:
  "bytesIndex data yamlSeparator = None
   \<or> (\<exists>pre after. data = pre @ yamlSeparator @ after \<and> bytesIndex pre yamlSeparator = None
        \<and> (after = []
           \<or> (after \<noteq> [] \<and> CHR 0x0A \<notin> set after)
           \<or> (\<exists>line rest. after = line @ [CHR 0x0A] @ rest \<and> CHR 0x0A \<notin> set line)))"
proof (cases "bytesIndex data yamlSeparator")
  case None
  then show ?thesis by simp
next
  case (Some i)
  let ?pre = "take i data" and ?after = "drop (i + length yamlSeparator) data"
  from bytesIndex_bound[OF Some]
  have "take (length yamlSeparator) (drop i data) = yamlSeparator" by simp
  then have "drop i data = yamlSeparator @ ?after"
    by (metis append_take_drop_id drop_drop add.commute)
  then have d: "data = ?pre @ yamlSeparator @ ?after"
    by (metis append_take_drop_id)
  have p: "bytesIndex ?pre yamlSeparator = None"
    using Some by (rule bytesIndex_first) simp
  have "?after = [] \<or> (?after \<noteq> [] \<and> CHR 0x0A \<notin> set ?after)
      \<or> (\<exists>line rest. ?after = line @ [CHR 0x0A] @ rest \<and> CHR 0x0A \<notin> set line)"
  proof (cases "CHR 0x0A \<in> set ?after")
    case True
    then obtain line rest where "?after = line @ CHR 0x0A # rest" "CHR 0x0A \<notin> set line"
      by (auto dest: split_list_first)
    then show ?thesis by auto
  next
    case False
    then show ?thesis by auto
  qed
  with d p show ?thesis by blast
qed





subsection \<open>Process\<close>

lemma processLoop_append:
  "processLoop L b (xs @ ys) =
     (case processLoop L b xs of Inl e \<Rightarrow> Inl e | Inr b' \<Rightarrow> processLoop L b' ys)"
  by (induction xs arbitrary: b)
     (auto simp: Let_def split: prod.splits option.splits sum.splits)

text \<open>
  What \<open>Process\<close> does with a token that the scanner delivers and that is not empty
  after trimming, the tokens before it processed without error: when the YAML decoder
  fails, Process returns that error, whatever follows; when the decoded document has an
  empty kind, apiVersion or metadata.name, the result is that of the tokens without this
  one; otherwise the document is handed to \<open>handleResourceType\<close> with its trimmed bytes
  as \<open>Raw\<close>, and processing goes on with the rest.
\<close>

lemma Process_token_outcomes:
  assumes "scanDocuments stream = pre @ token # rest"
    and "processLoop L b pre = Inr b1"
    and "data = trimSpace L token"
    and "data \<noteq> []"
  shows "Process L b stream =
     (case yamlUnmarshal L data of
        Inl err \<Rightarrow> Inl err
      | Inr obj \<Rightarrow>
          if Kind obj = [] \<or> APIVersion obj = [] \<or> Name (Metadata obj) = []
          then processLoop L b (pre @ rest)
          else (case handleResourceType L b1 (obj\<lparr>Raw := data\<rparr>) of
                  Inl err \<Rightarrow> Inl err
                | Inr b2 \<Rightarrow> processLoop L b2 rest))"
  using assms
  by (simp add: Process_def processLoop_append parseYAMLObject_def Let_def
           split: sum.splits)

text \<open>
  C9 fails on the code: \<open>Process\<close> loses documents without an error. Let \<open>doc\<close> hold
  no newline followed by three dashes. When \<open>doc\<close> has \<open>maxTokenSize\<close> bytes or more,
  the scanner stops with \<open>ErrTooLong\<close> before it delivers anything; \<open>Process\<close> does
  not look at the scanner's error and returns nil with the Builder as it was, whatever
  follows \<open>doc\<close> in the stream. When \<open>doc\<close> is followed by a marker whose line holds
  further bytes and that the stream does not end with a newline, the scanner delivers
  nothing either, and \<open>doc\<close> is dropped in the same way.
\<close>

theorem Process_loses_documents:
  assumes "bytesIndex doc yamlSeparator = None"
  shows "(maxTokenSize \<le> length doc \<longrightarrow>
            scannerRun (doc @ rest) = ([], Some ErrTooLong) \<and> Process L b (doc @ rest) = Inr b)
       \<and> (line \<noteq> [] \<and> CHR 0x0A \<notin> set line \<longrightarrow>
            Process L b (doc @ yamlSeparator @ line) = Inr b)"
proof (intro conjI impI)
  assume "maxTokenSize \<le> length doc"
  with assms show s: "scannerRun (doc @ rest) = ([], Some ErrTooLong)"
    by (rule scan_no_marker_too_long)
  then show "Process L b (doc @ rest) = Inr b"
    by (simp add: Process_def scanDocuments_def)
next
  assume "line \<noteq> [] \<and> CHR 0x0A \<notin> set line"
  with assms have "fst (scannerRun (doc @ yamlSeparator @ line)) = []"
    by (simp add: scan_marker_open)
  then show "Process L b (doc @ yamlSeparator @ line) = Inr b"
    by (simp add: Process_def scanDocuments_def)
qed

text \<open>
  The Deployment of the examples is stored when it is the whole stream and when it
  follows a short comment. It is lost, and \<open>Process\<close> returns nil with an unchanged
  Builder, when the comment before it has \<open>maxTokenSize\<close> bytes and when it is followed
  by a marker line that the stream does not end.
\<close>

theorem Process_loses_documents_witness:
  "scannerRun (replicate maxTokenSize (CHR ''#'') @ docSep @ docDeployment) = ([], Some ErrTooLong)
   \<and> Process exampleLib NewBuilder (replicate maxTokenSize (CHR ''#'') @ docSep @ docDeployment)
       = Inr NewBuilder
   \<and> Process exampleLib NewBuilder (docDeployment @ yamlSeparator @ '' end'') = Inr NewBuilder
   \<and> Process exampleLib NewBuilder (docComment @ docSep @ docDeployment)
       = Inr \<lparr>dirs = [([], \<lparr>k8sObjects = [webDeployment], configMapObjects = [],
                 secretObjects = [], resources = []\<rparr>)]\<rparr>
   \<and> Process exampleLib NewBuilder docDeployment
       = Inr \<lparr>dirs = [([], \<lparr>k8sObjects = [webDeployment], configMapObjects = [],
                 secretObjects = [], resources = []\<rparr>)]\<rparr>"
proof -
  have big: "bytesIndex (replicate maxTokenSize (CHR ''#'')) yamlSeparator = None"
    by (simp add: bytesIndex_replicate)
  have dep: "bytesIndex docDeployment yamlSeparator = None"
    by (simp add: docDeployment_def yamlSeparator_def)
  have 1: "scannerRun (replicate maxTokenSize (CHR ''#'') @ docSep @ docDeployment) = ([], Some ErrTooLong)
      \<and> Process exampleLib NewBuilder (replicate maxTokenSize (CHR ''#'') @ docSep @ docDeployment)
          = Inr NewBuilder"
    using Process_loses_documents [OF big, of "docSep @ docDeployment" exampleLib NewBuilder]
    by simp
  have 2: "Process exampleLib NewBuilder (docDeployment @ yamlSeparator @ '' end'') = Inr NewBuilder"
    using Process_loses_documents [OF dep, of _ _ _ "'' end''"]
    by simp
  have s3: "scanDocuments (docComment @ docSep @ docDeployment) = [docComment, docDeployment]"
    using scan_marker_line [of docComment "[]" docDeployment] scan_no_marker [of docDeployment]
    by (simp add: scanDocuments_def maxTokenSize_def yamlSeparator_def example_defs)
  have s4: "scanDocuments docDeployment = [docDeployment]"
    using scan_no_marker [of docDeployment]
    by (simp add: scanDocuments_def maxTokenSize_def yamlSeparator_def example_defs)
  have 3: "Process exampleLib NewBuilder (docComment @ docSep @ docDeployment)
       = Inr \<lparr>dirs = [([], \<lparr>k8sObjects = [webDeployment], configMapObjects = [],
                 secretObjects = [], resources = []\<rparr>)]\<rparr>"
    unfolding Process_def s3 by (simp add: example_defs builder_defs)
  have 4: "Process exampleLib NewBuilder docDeployment
       = Inr \<lparr>dirs = [([], \<lparr>k8sObjects = [webDeployment], configMapObjects = [],
                 secretObjects = [], resources = []\<rparr>)]\<rparr>"
    unfolding Process_def s4 by (simp add: example_defs builder_defs)
  from 1 2 3 4 show ?thesis by blast
qed

subsection \<open>Acceptance of a batch of names and selection of a strategy\<close>

lemma fillMap_eq: "fillMap uniq items = uniq \<union> set items"
  unfolding fillMap_def by (induction items arbitrary: uniq) auto

lemma uniqueLoopK8s_eq:
  "uniqueLoopK8s objects uniq fn items localUniq =
     (if acceptable (map fn objects) (uniq \<union> localUniq) then Some (items @ map fn objects) else None)"
proof (induction objects arbitrary: items localUniq)
  case Nil
  then show ?case by (simp add: acceptable_def)
next
  case (Cons obj objects)
  show ?case
    by (simp add: Cons.IH Let_def acceptable_def)
qed

lemma isUniqueK8s_eq:
  "isUniqueFilenameFuncForK8sObjects objects uniq fn =
     (if acceptable (map fn objects) uniq then Some (map fn objects) else None)"
  by (simp add: isUniqueFilenameFuncForK8sObjects_def uniqueLoopK8s_eq)

lemma uniqueLoopKeys_eq:
  "uniqueLoopKeys obj entries uniq fn items localUniq =
     (let names = map (\<lambda>(key, payload). fn obj key) entries in
      if acceptable names (uniq \<union> localUniq)
      then Some (items @ names, localUniq \<union> set names) else None)"
proof (induction entries arbitrary: items localUniq)
  case Nil
  then show ?case by (simp add: acceptable_def)
next
  case (Cons e entries)
  obtain key payload where e: "e = (key, payload)" by (cases e)
  show ?case
    by (simp add: e Cons.IH Let_def acceptable_def)
qed

lemma acceptable_append:
  "acceptable (xs @ ys) u \<longleftrightarrow> acceptable xs u \<and> acceptable ys (u \<union> set xs)"
  by (auto simp: acceptable_def)

lemma uniqueLoopFiles_eq:
  "uniqueLoopFiles objects uniq fn items localUniq =
     (if acceptable (entryNames fn objects) (uniq \<union> localUniq)
      then Some (items @ entryNames fn objects) else None)"
proof (induction objects arbitrary: items localUniq)
  case Nil
  then show ?case by (simp add: acceptable_def entryNames_def)
next
  case (Cons obj objects)
  have e: "entryNames fn (obj # objects) =
      map (\<lambda>(key, payload). fn (k8sObj obj) key) (files obj) @ entryNames fn objects"
    by (simp add: entryNames_def)
  show ?case
    unfolding e acceptable_append
    by (simp add: uniqueLoopKeys_eq Cons.IH Let_def Un_ac)
qed

lemma isUniqueFiles_eq:
  "isUniqueFilenameFunc objects uniq fn =
     (if acceptable (entryNames fn objects) uniq then Some (entryNames fn objects) else None)"
  by (simp add: isUniqueFilenameFunc_def uniqueLoopFiles_eq)

lemma selectLoopK8s_sound:
  "selectLoopK8s i funcs objects uniq = Some (f, u) \<Longrightarrow>
     acceptable (map f objects) uniq \<and> u = uniq \<union> set (map f objects)"
proof (induction funcs arbitrary: i)
  case Nil
  then show ?case by simp
next
  case (Cons fn funcs)
  show ?case
  proof (cases "acceptable (map fn objects) uniq")
    case False
    with Cons show ?thesis by (simp add: isUniqueK8s_eq)
  next
    case True
    with Cons.prems show ?thesis
      by (auto simp: isUniqueK8s_eq fillMap_eq Let_def split: if_splits)
  qed
qed

lemma selectLoopFiles_sound:
  "selectLoopFiles funcs objects uniq = Some (f, u) \<Longrightarrow>
     acceptable (entryNames f objects) uniq \<and> u = uniq \<union> set (entryNames f objects)"
proof (induction funcs)
  case Nil
  then show ?case by simp
next
  case (Cons fn funcs)
  show ?case
  proof (cases "acceptable (entryNames fn objects) uniq")
    case False
    with Cons show ?thesis by (simp add: isUniqueFiles_eq)
  next
    case True
    with Cons.prems show ?thesis
      by (auto simp: isUniqueFiles_eq fillMap_eq Let_def split: if_splits)
  qed
qed

lemma selectLoopK8s_None:
  "selectLoopK8s i funcs objects uniq = None \<longleftrightarrow>
     (\<forall>fn \<in> set funcs. \<not> acceptable (map fn objects) uniq)"
  by (induction funcs arbitrary: i) (auto simp: isUniqueK8s_eq Let_def)

lemma getK8sObjectFilenameFull_nonempty: "getK8sObjectFilenameFull L obj \<noteq> []"
  by (simp add: getK8sObjectFilenameFull_def Let_def)

text \<open>
  C3, as the code has it. The fifth whole-resource strategy (short name, kind qualified by
  the api group, \<open>.yaml\<close>) always gives non-empty names, so it is accepted exactly when
  its names are pairwise distinct and not reserved. Resolution of the whole-resource names
  fails exactly when none of the five strategies is accepted; in particular it succeeds
  whenever the names of the fifth are pairwise distinct and not reserved.
\<close>

theorem full_name_strategy_fallback:
  "getK8sObjectFilenameFull L obj \<noteq> []
   \<and> (acceptable (map (getK8sObjectFilenameFull L) objects) uniq \<longleftrightarrow>
        distinct (map (getK8sObjectFilenameFull L) objects)
        \<and> set (map (getK8sObjectFilenameFull L) objects) \<inter> uniq = {})
   \<and> (selectUniqueFilenameFuncForK8sObjects L objects uniq = None \<longleftrightarrow>
        (\<forall>fn \<in> set (k8sObjectFilenameFuncs L). \<not> acceptable (map fn objects) uniq))
   \<and> (distinct (map (getK8sObjectFilenameFull L) objects)
        \<and> set (map (getK8sObjectFilenameFull L) objects) \<inter> uniq = {}
        \<longrightarrow> selectUniqueFilenameFuncForK8sObjects L objects uniq \<noteq> None)"
proof -
  have ne: "[] \<notin> set (map (getK8sObjectFilenameFull L) objects)"
    by (auto simp: getK8sObjectFilenameFull_nonempty [symmetric])
  have a: "acceptable (map (getK8sObjectFilenameFull L) objects) uniq \<longleftrightarrow>
        distinct (map (getK8sObjectFilenameFull L) objects)
        \<and> set (map (getK8sObjectFilenameFull L) objects) \<inter> uniq = {}"
    using ne unfolding acceptable_def by blast
  have n: "selectUniqueFilenameFuncForK8sObjects L objects uniq = None \<longleftrightarrow>
        (\<forall>fn \<in> set (k8sObjectFilenameFuncs L). \<not> acceptable (map fn objects) uniq)"
    unfolding selectUniqueFilenameFuncForK8sObjects_def by (rule selectLoopK8s_None)
  have "getK8sObjectFilenameFull L \<in> set (k8sObjectFilenameFuncs L)"
    by (simp add: k8sObjectFilenameFuncs_def)
  with a n have "distinct (map (getK8sObjectFilenameFull L) objects)
        \<and> set (map (getK8sObjectFilenameFull L) objects) \<inter> uniq = {}
        \<longrightarrow> selectUniqueFilenameFuncForK8sObjects L objects uniq \<noteq> None"
    by blast
  with a n getK8sObjectFilenameFull_nonempty show ?thesis by blast
qed


theorem full_name_strategy_fallback_witness:
  "getK8sObjectFilenameFull exampleLib webDeployment = ''web_apps_deployment.yaml''
   \<and> selectUniqueFilenameFuncForK8sObjects exampleLib [webDeployment, webService]
         {''kustomization.yaml''} \<noteq> None"
proof -
  have names: "map (getK8sObjectFilenameFull exampleLib) [webDeployment, webService]
      = [''web_apps_deployment.yaml'', ''web_service.yaml'']"
    by (simp add: name_defs example_defs)
  have d: "distinct (map (getK8sObjectFilenameFull exampleLib) [webDeployment, webService])
      \<and> set (map (getK8sObjectFilenameFull exampleLib) [webDeployment, webService])
          \<inter> {''kustomization.yaml''} = {}"
    unfolding names by simp
  from d full_name_strategy_fallback [of exampleLib webDeployment "[webDeployment, webService]"
      "{''kustomization.yaml''}"]
  have "selectUniqueFilenameFuncForK8sObjects exampleLib [webDeployment, webService]
         {''kustomization.yaml''} \<noteq> None"
    by blast
  with names show ?thesis by simp
qed

text \<open>
  C3 as stated fails: two Deployments of the same api group with the same name, in two
  namespaces, get the same name from the fifth strategy; no strategy is accepted and
  \<open>Build\<close> returns the error \<open>no unique filename for k8s objects\<close> without a write.
\<close>

theorem full_name_strategy_collision_counterexample:
  "map (getK8sObjectFilenameFull exampleLib) twoWebs
     = [''web_apps_deployment.yaml'', ''web_apps_deployment.yaml'']
   \<and> selectUniqueFilenameFuncForK8sObjects exampleLib twoWebs {''kustomization.yaml''} = None
   \<and> kustomizationBuilder_Build exampleLib (newKustomizationBuilder\<lparr>k8sObjects := twoWebs\<rparr>)
         (recordingSink (\<lambda>log call. None) ''app'') []
       = (Some (Errorf ''no unique filename for k8s objects''), [])"
proof -
  have names: "map (getK8sObjectFilenameFull exampleLib) twoWebs
     = [''web_apps_deployment.yaml'', ''web_apps_deployment.yaml'']"
    by (simp add: name_defs example_defs)
  have none: "selectUniqueFilenameFuncForK8sObjects exampleLib twoWebs {''kustomization.yaml''} = None"
    by (simp add: selectUniqueFilenameFuncForK8sObjects_def isUniqueK8s_eq acceptable_def
          name_defs example_defs)
  have "kustomizationBuilder_Build exampleLib (newKustomizationBuilder\<lparr>k8sObjects := twoWebs\<rparr>)
         (recordingSink (\<lambda>log call. None) ''app'') []
       = (Some (Errorf ''no unique filename for k8s objects''), [])"
    by (simp add: kustomizationBuilder_Build_def initialUniq_def newKustomizationBuilder_def none)
  with names none show ?thesis by simp
qed



subsection \<open>Refinement by the common prefix\<close>

lemma charEqual_sepClass: "charEqual a b \<longleftrightarrow> sepClass a = sepClass b"
  by (auto simp: charEqual_def sepClass_def)

lemma fold_commonPrefix2_Nil: "fold (\<lambda>t p. commonPrefix2 p t) ts [] = []"
  by (induction ts) simp_all

lemma fold_commonPrefix2_Cons:
  "fold (\<lambda>t p. commonPrefix2 p t) ts (a # as) =
     (if \<forall>t \<in> set ts. t \<noteq> [] \<and> sepClass (hd t) = sepClass a
      then a # fold (\<lambda>t p. commonPrefix2 p t) (map tl ts) as
      else [])"
proof (induction ts arbitrary: as)
  case Nil
  then show ?case by simp
next
  case (Cons t ts)
  show ?case
  proof (cases t)
    case Nil
    then show ?thesis by (simp add: fold_commonPrefix2_Nil)
  next
    case (Cons b bs)
    then show ?thesis
      by (simp add: Cons.IH fold_commonPrefix2_Nil)
  qed
qed

lemma fold_commonPrefix2_empty_member:
  "[] \<in> set ts \<Longrightarrow> fold (\<lambda>t p. commonPrefix2 p t) ts p = []"
  by (cases p) (auto simp: fold_commonPrefix2_Nil fold_commonPrefix2_Cons)

lemma minLen_fold:
  "fold (\<lambda>s m. if length s < m then length s else m) rest n = m \<Longrightarrow>
     m \<le> n \<and> (\<forall>s \<in> set rest. m \<le> length s) \<and> (m = n \<or> (\<exists>s \<in> set rest. length s = m))"
proof (induction rest arbitrary: n)
  case Nil
  then show ?case by simp
next
  case (Cons s rest)
  from Cons.IH[OF Cons.prems[simplified]] show ?case
    by (auto split: if_splits)
qed

lemma lcpLoop_fold:
  assumes "\<forall>s \<in> set rest. minLen \<le> length s" and "minLen \<le> length s0"
    and "minLen = length s0 \<or> (\<exists>s \<in> set rest. length s = minLen)"
    and "i \<le> minLen"
  shows "lcpLoop s0 rest i minLen =
           take i s0 @ fold (\<lambda>t p. commonPrefix2 p t) (map (drop i) rest) (drop i s0)"
  using assms
proof (induction s0 rest i minLen rule: lcpLoop.induct)
  case (1 s0 rest i minLen)
  show ?case
  proof (cases "i < minLen")
    case True
    have d0: "drop i s0 = s0 ! i # drop (Suc i) s0"
      using True "1.prems"(2) by (simp add: Cons_nth_drop_Suc)
    have all: "(\<forall>t \<in> set (map (drop i) rest). t \<noteq> [] \<and> sepClass (hd t) = sepClass (s0 ! i))
        \<longleftrightarrow> list_all (\<lambda>s. charEqual (s ! i) (s0 ! i)) rest"
      using True "1.prems"(1)
      by (auto simp: list_all_iff charEqual_sepClass hd_drop_conv_nth)
    have tl: "map (tl \<circ> drop i) rest = map (drop (Suc i)) rest"
      by (simp add: drop_Suc tl_drop)
    show ?thesis
    proof (cases "list_all (\<lambda>s. charEqual (s ! i) (s0 ! i)) rest")
      case all_eq: True
      have "lcpLoop s0 rest (Suc i) minLen =
          take (Suc i) s0 @ fold (\<lambda>t p. commonPrefix2 p t) (map (drop (Suc i)) rest) (drop (Suc i) s0)"
        using "1.IH"[OF True all_eq] "1.prems" True by simp
      moreover have "take (Suc i) s0 = take i s0 @ [s0 ! i]"
        using True "1.prems"(2) by (simp add: take_Suc_conv_app_nth)
      ultimately show ?thesis
        using True all_eq all
        by (subst lcpLoop.simps) (simp add: d0 fold_commonPrefix2_Cons tl del: set_map)
    next
      case False
      then show ?thesis
        using True all
        by (subst lcpLoop.simps) (simp add: d0 fold_commonPrefix2_Cons del: set_map)
    qed
  next
    case False
    with "1.prems" have i: "i = minLen" by simp
    have "fold (\<lambda>t p. commonPrefix2 p t) (map (drop i) rest) (drop i s0) = []"
    proof (cases "minLen = length s0")
      case True
      then show ?thesis by (simp add: i fold_commonPrefix2_Nil)
    next
      case False
      with "1.prems"(3) obtain s where "s \<in> set rest" "length s = minLen" by blast
      then have "[] \<in> set (map (drop i) rest)" by (force simp: i)
      then show ?thesis by (rule fold_commonPrefix2_empty_member)
    qed
    then show ?thesis
      using i by (subst lcpLoop.simps) simp
  qed
qed

lemma longestCommonPrefix_spec:
  "2 \<le> length names \<Longrightarrow> longestCommonPrefix names = specCommonPrefix names"
proof -
  assume len: "2 \<le> length names"
  then obtain s0 s1 rest where n: "names = s0 # s1 # rest"
    by (cases names; cases "tl names") auto
  define m where "m = fold (\<lambda>s m. if length s < m then length s else m) (s1 # rest) (length s0)"
  from minLen_fold[OF m_def[symmetric]]
  have "lcpLoop s0 (s1 # rest) 0 m =
      take 0 s0 @ fold (\<lambda>t p. commonPrefix2 p t) (map (drop 0) (s1 # rest)) (drop 0 s0)"
    by (intro lcpLoop_fold) auto
  then show ?thesis
    by (simp add: n longestCommonPrefix_def specCommonPrefix_def m_def)
qed

lemma longestCommonPrefix_short:
  "length names < 2 \<Longrightarrow> longestCommonPrefix names = []"
  by (cases names; cases "tl names") (auto simp: longestCommonPrefix_def)


lemma commonPrefix2_prefix:
  "length (commonPrefix2 p t) \<le> length p
   \<and> length (commonPrefix2 p t) \<le> length t
   \<and> commonPrefix2 p t = take (length (commonPrefix2 p t)) p
   \<and> map sepClass (take (length (commonPrefix2 p t)) t) = map sepClass (commonPrefix2 p t)"
  by (induction p t rule: commonPrefix2.induct) auto

lemma fold_commonPrefix2_common:
  "r = fold (\<lambda>t p. commonPrefix2 p t) ts p \<Longrightarrow>
     length r \<le> length p \<and> r = take (length r) p
     \<and> (\<forall>t \<in> set ts. length r \<le> length t
           \<and> map sepClass (take (length r) t) = map sepClass r)"
proof (induction ts arbitrary: p)
  case Nil
  then show ?case by simp
next
  case (Cons t ts)
  define p' where "p' = commonPrefix2 p t"
  from Cons.prems have r: "r = fold (\<lambda>t p. commonPrefix2 p t) ts p'"
    by (simp add: p'_def)
  note ih = Cons.IH[OF r]
  note c = commonPrefix2_prefix[of p t, folded p'_def]
  from ih c have len: "length r \<le> length p'" "length r \<le> length p" "length r \<le> length t"
    by auto
  have rp: "r = take (length r) p"
  proof -
    from ih have "r = take (length r) p'" by simp
    also from c have "p' = take (length p') p" by simp
    finally show ?thesis using len by (simp add: min_def)
  qed
  have "map sepClass (take (length r) t) = take (length r) (map sepClass (take (length p') t))"
    using len by (simp add: take_map min_def)
  also have "\<dots> = take (length r) (map sepClass p')" using c by simp
  also have "\<dots> = map sepClass (take (length r) p')" by (simp add: take_map)
  also have "\<dots> = map sepClass r" using ih by simp
  finally have "map sepClass (take (length r) t) = map sepClass r" .
  with ih rp len show ?case by simp
qed

lemma specCommonPrefix_common:
  assumes "s \<in> set names"
  shows "length (specCommonPrefix names) \<le> length s
       \<and> map sepClass (take (length (specCommonPrefix names)) s)
           = map sepClass (specCommonPrefix names)"
proof (cases names)
  case Nil
  with assms show ?thesis by simp
next
  case (Cons s0 ss)
  define r where "r = fold (\<lambda>t p. commonPrefix2 p t) ss s0"
  have sp: "specCommonPrefix names = r"
    by (simp add: specCommonPrefix_def Cons r_def)
  note f = fold_commonPrefix2_common[OF r_def]
  show ?thesis
  proof (cases "s = s0")
    case True
    from f have "r = take (length r) s0" "length r \<le> length s0" by simp_all
    then show ?thesis unfolding sp True by metis
  next
    case False
    with assms Cons have "s \<in> set ss" by simp
    with f show ?thesis unfolding sp by blast
  qed
qed

lemma trimPrefix_common:
  assumes "length q \<le> length s" and "map sepClass (take (length q) s) = map sepClass q"
  shows "trimPrefix s q = drop (length q) s"
proof -
  have "charEqual (s ! i) (q ! i)" if "i < length q" for i
  proof -
    from assms(2) have "map sepClass (take (length q) s) ! i = map sepClass q ! i" by simp
    with that assms(1) show ?thesis by (simp add: charEqual_sepClass)
  qed
  then have "list_all (\<lambda>i. charEqual (s ! i) (q ! i)) [0..<length q]"
    by (simp add: list_all_iff)
  with assms(1) show ?thesis by (simp add: trimPrefix_def Let_def)
qed

lemma trimPrefix_specCommonPrefix:
  assumes "s \<in> set names" and "k \<le> length (specCommonPrefix names)"
  shows "trimPrefix s (take k (specCommonPrefix names)) = drop k s"
proof -
  let ?p = "specCommonPrefix names"
  note c = specCommonPrefix_common[OF assms(1)]
  have l: "length (take k ?p) = k" using assms(2) by simp
  have "map sepClass (take k s) = take k (map sepClass (take (length ?p) s))"
    using assms(2) by (simp add: take_map min_def)
  also have "\<dots> = map sepClass (take k ?p)" using c by (simp add: take_map)
  finally have "map sepClass (take (length (take k ?p)) s) = map sepClass (take k ?p)"
    using l by simp
  moreover have "length (take k ?p) \<le> length s" using c assms(2) by simp
  ultimately have "trimPrefix s (take k ?p) = drop (length (take k ?p)) s"
    by (intro trimPrefix_common)
  with l show ?thesis by simp
qed

lemma lastIndexAny_separator:
  "lastIndexAny s ''-_'' =
     (if \<exists>c \<in> set s. isSeparator c then int (specStripLength s) - 1 else - 1)"
proof (induction s rule: rev_induct)
  case Nil
  then show ?case by (simp add: lastIndexAny_def)
next
  case (snoc x xs)
  have f: "filter (\<lambda>i. (xs @ [x]) ! i \<in> set ''-_'') (rev [0..<length xs])
         = filter (\<lambda>i. xs ! i \<in> set ''-_'') (rev [0..<length xs])"
    by (rule filter_cong) (auto simp: nth_append)
  show ?case
  proof (cases "isSeparator x")
    case True
    then show ?thesis
      by (auto simp: lastIndexAny_def specStripLength_def isSeparator_def)
  next
    case False
    have "lastIndexAny (xs @ [x]) ''-_'' = lastIndexAny xs ''-_''"
      using False f by (simp add: lastIndexAny_def isSeparator_def)
    moreover have "specStripLength (xs @ [x]) = specStripLength xs"
      using False by (simp add: specStripLength_def)
    ultimately show ?thesis using False snoc.IH by simp
  qed
qed

lemma specStripLength_pos:
  "(\<exists>c \<in> set s. isSeparator c) \<longleftrightarrow> 0 < specStripLength s"
proof -
  have "length (takeWhile (\<lambda>c. \<not> isSeparator c) (rev s)) \<le> length (rev s)"
    by (rule length_takeWhile_le)
  moreover have "takeWhile (\<lambda>c. \<not> isSeparator c) (rev s) = rev s \<longleftrightarrow> \<not> (\<exists>c \<in> set s. isSeparator c)"
    by simp
  moreover have "length (takeWhile (\<lambda>c. \<not> isSeparator c) (rev s)) = length (rev s)
      \<longleftrightarrow> takeWhile (\<lambda>c. \<not> isSeparator c) (rev s) = rev s"
    by (metis length_rev takeWhile_eq_take take_all_iff order_refl)
  ultimately show ?thesis
    unfolding specStripLength_def by auto
qed

lemma indexOfSeparator_spec:
  "indexOfSeparator s = (if 0 < specStripLength s then int (specStripLength s) else - 1)"
  using specStripLength_pos[of s]
  by (auto simp: indexOfSeparator_def lastIndexAny_separator Let_def)

lemma specStripLength_le: "specStripLength s \<le> length s"
  by (simp add: specStripLength_def)


lemma selectLoopK8s_skip:
  "\<forall>fn \<in> set pre. isUniqueFilenameFuncForK8sObjects objects uniq fn = None \<Longrightarrow>
     selectLoopK8s i (pre @ funcs) objects uniq = selectLoopK8s (i + length pre) funcs objects uniq"
  by (induction pre arbitrary: i) simp_all

lemma selectLoopK8s_accepted:
  assumes "isUniqueFilenameFuncForK8sObjects objects uniq fn = Some items"
  shows "\<exists>f. selectLoopK8s i (fn # funcs) objects uniq = Some (f, uniq \<union> set (map f objects))
      \<and> map f objects =
          (if 0 < i \<and> 2 \<le> length items \<and> acceptable (specRefined items) uniq
           then specRefined items else items)"
proof -
  from assms have items: "map fn objects = items" and acc: "acceptable items uniq"
    by (auto simp: isUniqueK8s_eq split: if_splits)
  let ?keep = "Some (fn, uniq \<union> set items)"
  let ?p = "specCommonPrefix items"
  let ?k = "specStripLength ?p"
  show ?thesis
  proof (cases "0 < i \<and> 2 \<le> length items \<and> 0 < ?k")
    case False
    then consider "i = 0" | "length items < 2" | "2 \<le> length items" "?k = 0"
      by linarith
    then have "selectLoopK8s i (fn # funcs) objects uniq = ?keep"
    proof cases
      case 1
      with assms show ?thesis by (simp add: fillMap_eq)
    next
      case 2
      then have "longestCommonPrefix items = []" by (rule longestCommonPrefix_short)
      with assms show ?thesis by (simp add: fillMap_eq Let_def)
    next
      case 3
      then have "longestCommonPrefix items = ?p" by (simp add: longestCommonPrefix_spec)
      with 3 assms show ?thesis
        by (simp add: fillMap_eq Let_def indexOfSeparator_spec)
    qed
    then have "selectLoopK8s i (fn # funcs) objects uniq = Some (fn, uniq \<union> set (map fn objects))"
      unfolding items .
    moreover have "\<not> 0 < ?k \<Longrightarrow> specRefined items = items"
      by (simp add: specRefined_def)
    then have "map fn objects =
          (if 0 < i \<and> 2 \<le> length items \<and> acceptable (specRefined items) uniq
           then specRefined items else items)"
      using False acc items by auto
    ultimately show ?thesis by blast
  next
    case True
    then have lcp: "longestCommonPrefix items = ?p" by (simp add: longestCommonPrefix_spec)
    from True have pne: "?p \<noteq> []" by (auto simp: specStripLength_def)
    let ?new = "removeK8sObjectsPrefix fn (take ?k ?p)"
    have "map ?new objects = map (drop ?k) (map fn objects)"
      unfolding removeK8sObjectsPrefix_def map_map comp_def
    proof (rule map_cong[OF refl])
      fix obj assume "obj \<in> set objects"
      then have "fn obj \<in> set items" unfolding items[symmetric] by simp
      then show "trimPrefix (fn obj) (take ?k ?p) = drop ?k (fn obj)"
        by (rule trimPrefix_specCommonPrefix) (rule specStripLength_le)
    qed
    then have new: "map ?new objects = specRefined items"
      by (simp add: specRefined_def items)
    have sel: "selectLoopK8s i (fn # funcs) objects uniq =
        (if acceptable (specRefined items) uniq
         then Some (?new, uniq \<union> set (specRefined items)) else ?keep)"
      using True assms pne
      by (simp add: Let_def lcp indexOfSeparator_spec isUniqueK8s_eq fillMap_eq new)
    show ?thesis
    proof (cases "acceptable (specRefined items) uniq")
      case a: True
      have "selectLoopK8s i (fn # funcs) objects uniq = Some (?new, uniq \<union> set (map ?new objects))"
        unfolding new using sel a by (simp only: if_True)
      moreover have "map ?new objects =
          (if 0 < i \<and> 2 \<le> length items \<and> acceptable (specRefined items) uniq
           then specRefined items else items)"
        using new True a by simp
      ultimately show ?thesis by blast
    next
      case False
      have "selectLoopK8s i (fn # funcs) objects uniq = Some (fn, uniq \<union> set (map fn objects))"
        unfolding items using sel False by (simp only: if_False)
      moreover have "map fn objects =
          (if 0 < i \<and> 2 \<le> length items \<and> acceptable (specRefined items) uniq
           then specRefined items else items)"
        using items False by simp
      ultimately show ?thesis by blast
    qed
  qed
qed

lemmas resolver_defs = selectUniqueFilenameFuncForK8sObjects_def selectedK8sNames_def
  isUniqueK8s_eq acceptable_def fillMap_def longestCommonPrefix_def indexOfSeparator_def
  lastIndexAny_def removeK8sObjectsPrefix_def

lemmas spec_refine_defs = specRefined_def specCommonPrefix_def specStripLength_def
  isSeparator_def sepClass_def

text \<open>
  C5, as the code has it. Let the strategy at position \<open>n\<close> of the list be the first
  that is accepted, with the names \<open>items\<close>. The definition-kind strategy (\<open>n = 0\<close>)
  wins with its names as they are. For any other strategy, and a batch of at least two
  names, the refined names (everything up to and including the last separator of the
  longest common prefix stripped from every name, \<open>-\<close> and \<open>_\<close> counting as equal) are
  selected exactly when they are acceptable; otherwise, and for every batch of fewer than
  two names, the accepted names are kept. The selected names are added to the reserved
  names.
\<close>

theorem refinement_of_accepted_strategy:
  assumes "n < length (k8sObjectFilenameFuncs L)"
    and "\<forall>m<n. isUniqueFilenameFuncForK8sObjects objects uniq (k8sObjectFilenameFuncs L ! m) = None"
    and "isUniqueFilenameFuncForK8sObjects objects uniq (k8sObjectFilenameFuncs L ! n) = Some items"
  shows "selectedK8sNames L objects uniq =
     (if 0 < n \<and> 2 \<le> length items \<and> acceptable (specRefined items) uniq
      then Some (specRefined items, uniq \<union> set (specRefined items))
      else Some (items, uniq \<union> set items))"
proof -
  let ?fs = "k8sObjectFilenameFuncs L"
  have split: "?fs = take n ?fs @ ?fs ! n # drop (Suc n) ?fs"
    using assms(1) by (simp add: id_take_nth_drop)
  have rej: "\<forall>fn \<in> set (take n ?fs). isUniqueFilenameFuncForK8sObjects objects uniq fn = None"
    using assms(1,2) by (auto simp: in_set_conv_nth)
  have "selectUniqueFilenameFuncForK8sObjects L objects uniq =
      selectLoopK8s n (?fs ! n # drop (Suc n) ?fs) objects uniq"
    unfolding selectUniqueFilenameFuncForK8sObjects_def
    using selectLoopK8s_skip[OF rej, of 0 "?fs ! n # drop (Suc n) ?fs"] split assms(1)
    by (simp add: min_def)
  moreover from selectLoopK8s_accepted[OF assms(3), of n "drop (Suc n) ?fs"]
  obtain f where "selectLoopK8s n (?fs ! n # drop (Suc n) ?fs) objects uniq
        = Some (f, uniq \<union> set (map f objects))"
    and "map f objects =
          (if 0 < n \<and> 2 \<le> length items \<and> acceptable (specRefined items) uniq
           then specRefined items else items)"
    by blast
  ultimately show ?thesis
    by (simp add: selectedK8sNames_def)
qed

theorem refinement_of_accepted_strategy_witness:
  "selectedK8sNames exampleLib svcPair {''kustomization.yaml''}
     = Some ([''api.yaml'', ''web.yaml''], {''kustomization.yaml''} \<union> set [''api.yaml'', ''web.yaml''])"
proof -
  let ?u = "{''kustomization.yaml''}"
  have n: "2 < length (k8sObjectFilenameFuncs exampleLib)"
    by (simp add: k8sObjectFilenameFuncs_def)
  have r0: "isUniqueFilenameFuncForK8sObjects svcPair ?u (k8sObjectFilenameFuncs exampleLib ! 0) = None"
    and r1: "isUniqueFilenameFuncForK8sObjects svcPair ?u (k8sObjectFilenameFuncs exampleLib ! 1) = None"
    by (simp_all add: isUniqueK8s_eq acceptable_def name_defs example_defs)
  have rej: "\<forall>m<2. isUniqueFilenameFuncForK8sObjects svcPair ?u
               (k8sObjectFilenameFuncs exampleLib ! m) = None"
  proof (intro allI impI)
    fix m :: nat assume "m < 2"
    then consider "m = 0" | "m = 1" by linarith
    then show "isUniqueFilenameFuncForK8sObjects svcPair ?u
               (k8sObjectFilenameFuncs exampleLib ! m) = None"
      using r0 r1 by cases simp_all
  qed
  have acc: "isUniqueFilenameFuncForK8sObjects svcPair ?u (k8sObjectFilenameFuncs exampleLib ! 2)
      = Some [''svc-api.yaml'', ''svc-web.yaml'']"
    by (simp add: isUniqueK8s_eq acceptable_def name_defs example_defs)
  have ref: "specRefined [''svc-api.yaml'', ''svc-web.yaml''] = [''api.yaml'', ''web.yaml'']"
    by (simp add: spec_refine_defs)
  show ?thesis
    using refinement_of_accepted_strategy [OF n rej acc]
    by (simp add: ref acceptable_def)
qed

text \<open>
  C5 as stated fails for a batch of one name: \<open>longestCommonPrefix\<close> returns the empty
  string for it. A lone resource of kind Kustomization named \<open>my-app\<close> is named by the
  third strategy (the second gives the reserved \<open>kustomization.yaml\<close>), and keeps
  \<open>my-app.yaml\<close> although the refined name \<open>app.yaml\<close> is acceptable.
\<close>

theorem single_name_not_refined_counterexample:
  "selectedK8sNames exampleLib [loneKustomization] {''kustomization.yaml''}
     = Some ([''my-app.yaml''], {''my-app.yaml'', ''kustomization.yaml''})
   \<and> specRefined [''my-app.yaml''] = [''app.yaml'']
   \<and> acceptable [''app.yaml''] {''kustomization.yaml''}"
  by (simp add: resolver_defs spec_refine_defs name_defs example_defs)



subsection \<open>The trace of a run on the recording sink\<close>

lemma putAll_append:
  "putAll fails dir (xs @ ys) log =
     (case putAll fails dir xs log of
        (Some err, log') \<Rightarrow> (Some err, log')
      | (None, log') \<Rightarrow> putAll fails dir ys log')"
  by (induction xs arbitrary: log) (auto split: option.splits)

lemma writeObjectsLoop_trace:
  "fst (writeObjectsLoop objects f (recordingSink fails dir) buf log)
     = fst (putAll fails dir (objectCalls f objects) log)
   \<and> snd (snd (writeObjectsLoop objects f (recordingSink fails dir) buf log))
     = snd (putAll fails dir (objectCalls f objects) log)
   \<and> (fst (putAll fails dir (objectCalls f objects) log) = None \<longrightarrow>
        fst (snd (writeObjectsLoop objects f (recordingSink fails dir) buf log))
          = fst (snd (writeObjectsLoop objects f neverFails buf ())))"
proof (induction objects arbitrary: buf log)
  case Nil
  then show ?case by (simp add: objectCalls_def)
next
  case (Cons obj objects)
  have step: "\<And>wf st. writeObjectsLoop (obj # objects) f wf buf st =
      (case wf (f obj) (Raw obj) st of
        (Some err, st') \<Rightarrow> (Some err, buf, st')
      | (None, st') \<Rightarrow> writeObjectsLoop objects f wf (buf @ ''- '' @ f obj @ ''\<newline>'') st')"
    by (simp add: Let_def)
  have calls: "objectCalls f (obj # objects) = (f obj, Raw obj) # objectCalls f objects"
    by (simp add: objectCalls_def)
  have rs: "recordingSink fails dir (f obj) (Raw obj) log =
      (fails log (dir, f obj, Raw obj), log @ [(dir, f obj, Raw obj)])"
    by (simp add: recordingSink_def)
  have nf: "neverFails (f obj) (Raw obj) () = (None, ())"
    by (simp add: neverFails_def)
  show ?case
  proof (cases "fails log (dir, f obj, Raw obj)")
    case None
    then show ?thesis
      unfolding step calls rs nf
      using Cons.IH[of "buf @ ''- '' @ f obj @ ''\<newline>''" "log @ [(dir, f obj, Raw obj)]"]
      by simp
  next
    case (Some err)
    then show ?thesis
      unfolding step calls rs
      by simp
  qed
qed


lemma entryCalls_Cons:
  "entryCalls f (obj # objects) = entryCallsOf f (k8sObj obj) (files obj) @ entryCalls f objects"
  by (simp add: entryCalls_def entryCallsOf_def)

lemma entryCalls_Nil: "entryCalls f [] = []"
  by (simp add: entryCalls_def)

lemma writeFilesLoop_neverFails:
  "fst (writeFilesLoop entries f obj neverFails buf ()) = None"
  by (induction entries arbitrary: buf) (auto simp: neverFails_def Let_def)

lemma writeFilesLoop_trace:
  "fst (writeFilesLoop entries f obj (recordingSink fails dir) buf log)
     = fst (putAll fails dir (entryCallsOf f obj entries) log)
   \<and> snd (snd (writeFilesLoop entries f obj (recordingSink fails dir) buf log))
     = snd (putAll fails dir (entryCallsOf f obj entries) log)
   \<and> (fst (putAll fails dir (entryCallsOf f obj entries) log) = None \<longrightarrow>
        fst (snd (writeFilesLoop entries f obj (recordingSink fails dir) buf log))
          = fst (snd (writeFilesLoop entries f obj neverFails buf ())))"
proof (induction entries arbitrary: buf log)
  case Nil
  then show ?case by (simp add: entryCallsOf_def)
next
  case (Cons e entries)
  obtain key payload where e: "e = (key, payload)" by (cases e)
  define b where "b = (if f obj key \<noteq> key
             then buf @ ''  - '' @ key @ ''='' @ f obj key @ ''\<newline>''
             else buf @ ''  - '' @ key @ ''\<newline>'')"
  have step: "\<And>wf st. writeFilesLoop (e # entries) f obj wf buf st =
      (case wf (f obj key) payload st of
        (Some err, st') \<Rightarrow> (Some err, buf, st')
      | (None, st') \<Rightarrow> writeFilesLoop entries f obj wf b st')"
    unfolding b_def by (simp add: e Let_def)
  have calls: "entryCallsOf f obj (e # entries) = (f obj key, payload) # entryCallsOf f obj entries"
    by (simp add: e entryCallsOf_def)
  have rs: "recordingSink fails dir (f obj key) payload log =
      (fails log (dir, f obj key, payload), log @ [(dir, f obj key, payload)])"
    by (simp add: recordingSink_def)
  have nf: "neverFails (f obj key) payload () = (None, ())"
    by (simp add: neverFails_def)
  show ?case
  proof (cases "fails log (dir, f obj key, payload)")
    case None
    then show ?thesis
      unfolding step calls rs nf
      using Cons.IH[of b "log @ [(dir, f obj key, payload)]"]
      by simp
  next
    case (Some err)
    then show ?thesis
      unfolding step calls rs
      by simp
  qed
qed

lemma writeFiles_trace:
  "fst (writeFiles buf entries f obj (recordingSink fails dir) log)
     = fst (putAll fails dir (entryCallsOf f obj entries) log)
   \<and> snd (snd (writeFiles buf entries f obj (recordingSink fails dir) log))
     = snd (putAll fails dir (entryCallsOf f obj entries) log)
   \<and> (fst (putAll fails dir (entryCallsOf f obj entries) log) = None \<longrightarrow>
        fst (snd (writeFiles buf entries f obj (recordingSink fails dir) log))
          = fst (snd (writeFiles buf entries f obj neverFails ())))"
  unfolding writeFiles_def by (rule writeFilesLoop_trace)

lemma writeGeneratorsLoop_trace:
  "fst (writeGeneratorsLoop L gt objects f (recordingSink fails dir) buf log)
     = fst (putAll fails dir (entryCalls f objects) log)
   \<and> snd (snd (writeGeneratorsLoop L gt objects f (recordingSink fails dir) buf log))
     = snd (putAll fails dir (entryCalls f objects) log)
   \<and> (fst (putAll fails dir (entryCalls f objects) log) = None \<longrightarrow>
        fst (snd (writeGeneratorsLoop L gt objects f (recordingSink fails dir) buf log))
          = fst (snd (writeGeneratorsLoop L gt objects f neverFails buf ())))"
proof (induction objects arbitrary: buf log)
  case Nil
  then show ?case by (simp add: entryCalls_Nil)
next
  case (Cons obj objects)
  define buf1 where "buf1 =
     (let m = Metadata (k8sObj obj);
          buf = buf @ ''- name: '' @ Name m @ ''\<newline>'';
          buf = (if Namespace m \<noteq> [] then buf @ ''  namespace: '' @ Namespace m @ ''\<newline>''
                 else buf);
          buf = (if gt = ''secretGenerator'' \<and> Type (k8sObj obj) \<noteq> []
                 then buf @ ''  type: '' @ Type (k8sObj obj) @ ''\<newline>'' else buf);
          buf = buf @ ''  options:\<newline>'';
          buf = buf @ ''    disableNameSuffixHash: true\<newline>'';
          buf = writeMapFields L buf ''annotations'' (Annotations m);
          buf = writeMapFields L buf ''labels'' (Labels m);
          buf = (if Immutable (k8sObj obj) then buf @ ''    immutable: true\<newline>'' else buf)
      in buf)"
  have step: "\<And>wf st. writeGeneratorsLoop L gt (obj # objects) f wf buf st =
      (case writeFiles buf1 (files obj) f (k8sObj obj) wf st of
           (Some err, buf', st') \<Rightarrow> (Some err, buf', st')
         | (None, buf', st') \<Rightarrow> writeGeneratorsLoop L gt objects f wf buf' st')"
    unfolding buf1_def by (simp add: Let_def)
  let ?W = "writeFiles buf1 (files obj) f (k8sObj obj) (recordingSink fails dir) log"
  let ?N = "writeFiles buf1 (files obj) f (k8sObj obj) neverFails ()"
  let ?P = "putAll fails dir (entryCallsOf f (k8sObj obj) (files obj)) log"
  note t = writeFiles_trace[of buf1 "files obj" f "k8sObj obj" fails dir log]
  obtain e1 log1 where p1: "?P = (e1, log1)" by (cases ?P)
  obtain ew bw and lw :: "putCall list" where w: "?W = (ew, bw, lw)" by (cases ?W)
  have "fst ?N = None"
    by (simp add: writeFiles_def writeFilesLoop_neverFails)
  then obtain b0 where w0: "?N = (None, b0, ())"
    by (cases ?N) auto
  from t p1 w w0 have ew: "ew = e1" and lw: "lw = log1" and bw: "e1 = None \<longrightarrow> bw = b0"
    by simp_all
  show ?case
  proof (cases e1)
    case None
    with bw have "bw = b0" by simp
    then show ?thesis
      unfolding step entryCalls_Cons putAll_append p1 w w0 ew lw None
      using Cons.IH[of b0 log1]
      by simp
  next
    case (Some err)
    then show ?thesis
      unfolding step entryCalls_Cons putAll_append p1 w ew lw
      by simp
  qed
qed


lemma writeResources_trace:
  "fst (writeResources buf rs objects f (recordingSink fails dir) log)
     = fst (putAll fails dir (objectCalls f objects) log)
   \<and> snd (snd (writeResources buf rs objects f (recordingSink fails dir) log))
     = snd (putAll fails dir (objectCalls f objects) log)
   \<and> (fst (putAll fails dir (objectCalls f objects) log) = None \<longrightarrow>
        fst (snd (writeResources buf rs objects f (recordingSink fails dir) log))
          = fst (snd (writeResources buf rs objects f neverFails ())))"
proof (cases "0 < length rs \<or> 0 < length objects")
  case True
  then show ?thesis
    unfolding writeResources_def Let_def
    using writeObjectsLoop_trace[of objects f fails dir _ log]
    by simp
next
  case False
  then show ?thesis
    by (simp add: writeResources_def objectCalls_def)
qed

lemma writeGenerators_trace:
  "fst (writeGenerators L buf gt objects f (recordingSink fails dir) log)
     = fst (putAll fails dir (entryCalls f objects) log)
   \<and> snd (snd (writeGenerators L buf gt objects f (recordingSink fails dir) log))
     = snd (putAll fails dir (entryCalls f objects) log)
   \<and> (fst (putAll fails dir (entryCalls f objects) log) = None \<longrightarrow>
        fst (snd (writeGenerators L buf gt objects f (recordingSink fails dir) log))
          = fst (snd (writeGenerators L buf gt objects f neverFails ())))"
proof (cases "0 < length objects")
  case True
  then show ?thesis
    unfolding writeGenerators_def
    using writeGeneratorsLoop_trace[of L gt objects f fails dir _ log]
    by simp
next
  case False
  then show ?thesis
    by (simp add: writeGenerators_def entryCalls_def)
qed

lemma putAll_single:
  "putAll fails dir [(name, data)] log = recordingSink fails dir name data log"
  by (simp add: recordingSink_def split: option.splits)

lemma resolveNames_Inr:
  "resolveNames L k = Inr (f1, f2, f3) \<longleftrightarrow>
     (\<exists>u1 u2 u3. selectUniqueFilenameFuncForK8sObjects L (k8sObjects k) (initialUniq k) = Some (f1, u1)
        \<and> selectUniqueFilenameFuncForFiles L (configMapObjects k) u1 = Some (f2, u2)
        \<and> selectUniqueFilenameFuncForFiles L (secretObjects k) u2 = Some (f3, u3))"
  by (auto simp: resolveNames_def split: option.splits)

lemma Build_trace:
  "kustomizationBuilder_Build L k (recordingSink fails dir) log =
     (case resolveNames L k of
        Inl err \<Rightarrow> (Some err, log)
      | Inr fs \<Rightarrow>
          putAll fails dir (fileCalls fs k @ [(''kustomization.yaml'', manifestBytes L fs k)]) log)"
proof (cases "resolveNames L k")
  case (Inl err)
  then show ?thesis
    by (auto simp: kustomizationBuilder_Build_def resolveNames_def split: option.splits)
next
  case (Inr fs)
  obtain f1 f2 f3 where fs: "fs = (f1, f2, f3)" by (cases fs)
  from Inr[unfolded fs resolveNames_Inr] obtain u1 u2 u3 where
    s1: "selectUniqueFilenameFuncForK8sObjects L (k8sObjects k) (initialUniq k) = Some (f1, u1)"
    and s2: "selectUniqueFilenameFuncForFiles L (configMapObjects k) u1 = Some (f2, u2)"
    and s3: "selectUniqueFilenameFuncForFiles L (secretObjects k) u2 = Some (f3, u3)"
    by blast
  let ?sink = "recordingSink fails dir"
  let ?c1 = "objectCalls f1 (k8sObjects k)"
  let ?c2 = "entryCalls f2 (configMapObjects k)"
  let ?c3 = "entryCalls f3 (secretObjects k)"
  obtain e1 b1 and l1 :: "putCall list" where
    w1: "writeResources manifestHeader (resources k) (k8sObjects k) f1 ?sink log = (e1, b1, l1)"
    by (cases "writeResources manifestHeader (resources k) (k8sObjects k) f1 ?sink log")
  obtain n1 where
    v1: "fst (snd (writeResources manifestHeader (resources k) (k8sObjects k) f1 neverFails ())) = n1"
    by simp
  note t1 = writeResources_trace[of manifestHeader "resources k" "k8sObjects k" f1 fails dir log,
      unfolded w1 v1, simplified]
  obtain e2 b2 and l2 :: "putCall list" where
    w2: "writeGenerators L n1 ''configMapGenerator'' (configMapObjects k) f2 ?sink l1 = (e2, b2, l2)"
    by (cases "writeGenerators L n1 ''configMapGenerator'' (configMapObjects k) f2 ?sink l1")
  obtain n2 where
    v2: "fst (snd (writeGenerators L n1 ''configMapGenerator'' (configMapObjects k) f2 neverFails ())) = n2"
    by simp
  note t2 = writeGenerators_trace[of L n1 "''configMapGenerator''" "configMapObjects k" f2 fails dir l1,
      unfolded w2 v2, simplified]
  obtain e3 b3 and l3 :: "putCall list" where
    w3: "writeGenerators L n2 ''secretGenerator'' (secretObjects k) f3 ?sink l2 = (e3, b3, l3)"
    by (cases "writeGenerators L n2 ''secretGenerator'' (secretObjects k) f3 ?sink l2")
  obtain n3 where
    v3: "fst (snd (writeGenerators L n2 ''secretGenerator'' (secretObjects k) f3 neverFails ())) = n3"
    by simp
  note t3 = writeGenerators_trace[of L n2 "''secretGenerator''" "secretObjects k" f3 fails dir l2,
      unfolded w3 v3, simplified]
  have m: "manifestBytes L fs k = n3"
    by (simp add: manifestBytes_def fs Let_def v1 v2 v3)
  have build: "kustomizationBuilder_Build L k ?sink log =
      (case e1 of Some err \<Rightarrow> (Some err, l1)
       | None \<Rightarrow> (case writeGenerators L b1 ''configMapGenerator'' (configMapObjects k) f2 ?sink l1 of
            (Some err, buf, st) \<Rightarrow> (Some err, st)
          | (None, buf, st) \<Rightarrow>
            (case writeGenerators L buf ''secretGenerator'' (secretObjects k) f3 ?sink st of
               (Some err, buf, st) \<Rightarrow> (Some err, st)
             | (None, buf, st) \<Rightarrow> ?sink ''kustomization.yaml'' buf st)))"
    by (simp add: kustomizationBuilder_Build_def s1 s2 s3 w1 split: option.splits)
  have calls: "putAll fails dir (fileCalls fs k @ [(''kustomization.yaml'', manifestBytes L fs k)]) log =
      (case putAll fails dir ?c1 log of
         (Some err, log') \<Rightarrow> (Some err, log')
       | (None, log') \<Rightarrow>
          (case putAll fails dir ?c2 log' of
             (Some err, log') \<Rightarrow> (Some err, log')
           | (None, log') \<Rightarrow>
              (case putAll fails dir ?c3 log' of
                 (Some err, log') \<Rightarrow> (Some err, log')
               | (None, log') \<Rightarrow> ?sink ''kustomization.yaml'' n3 log')))"
    by (simp add: fileCalls_def fs putAll_append m[unfolded fs] recordingSink_def
          split: prod.splits option.splits)
  obtain p1 q1 where P1: "putAll fails dir ?c1 log = (p1, q1)" by (cases "putAll fails dir ?c1 log")
  from t1 P1 have r1: "e1 = p1" "l1 = q1" "p1 = None \<longrightarrow> b1 = n1" by simp_all
  show ?thesis
  proof (cases p1)
    case (Some err)
    then show ?thesis
      unfolding Inr sum.case build calls P1 using r1 by simp
  next
    case None
    with r1 have b1: "b1 = n1" by simp
    obtain p2 q2 where P2: "putAll fails dir ?c2 q1 = (p2, q2)" by (cases "putAll fails dir ?c2 q1")
    from t2 P2 r1 have r2: "e2 = p2" "l2 = q2" "p2 = None \<longrightarrow> b2 = n2" by simp_all
    show ?thesis
    proof (cases p2)
      case (Some err)
      then show ?thesis
        unfolding Inr sum.case build calls P1 using r1 r2 None b1 w2 P2 by simp
    next
      case n2: None
      with r2 have b2: "b2 = n2" by simp
      obtain p3 q3 where P3: "putAll fails dir ?c3 q2 = (p3, q3)" by (cases "putAll fails dir ?c3 q2")
      from t3 P3 r2 have r3: "e3 = p3" "l3 = q3" "p3 = None \<longrightarrow> b3 = n3" by simp_all
      show ?thesis
        unfolding Inr sum.case build calls P1
        using r1 r2 r3 None n2 b1 b2 w2 w3 P2 P3
        by (cases p3) simp_all
    qed
  qed
qed


lemma putAll_prefix:
  "putAll fails dir calls log = (e, log') \<Longrightarrow>
     \<exists>n \<le> length calls. log' = log @ tagCalls dir (take n calls) \<and> (e = None \<longrightarrow> n = length calls)"
proof (induction calls arbitrary: log)
  case Nil
  then show ?case by (simp add: tagCalls_def)
next
  case (Cons c calls)
  obtain name data where c: "c = (name, data)" by (cases c)
  show ?case
  proof (cases "fails log (dir, name, data)")
    case (Some err)
    then have "putAll fails dir (c # calls) log = (Some err, log @ [(dir, name, data)])"
      by (simp add: c)
    with Cons.prems have "e = Some err" "log' = log @ [(dir, name, data)]"
      by simp_all
    then show ?thesis by (intro exI[of _ 1]) (simp add: c tagCalls_def)
  next
    case None
    with Cons.prems have "putAll fails dir calls (log @ [(dir, name, data)]) = (e, log')"
      by (simp add: c)
    from Cons.IH[OF this] obtain n where n: "n \<le> length calls"
      "log' = (log @ [(dir, name, data)]) @ tagCalls dir (take n calls)"
      "e = None \<longrightarrow> n = length calls" by blast
    then show ?thesis
      by (intro exI[of _ "Suc n"]) (simp add: c tagCalls_def)
  qed
qed

lemma buildLoop_step:
  "buildLoop L b (dir # ds) (recordingSink fails) log =
     (case dirPlan L b dir of
        Inl err \<Rightarrow> (Some err, log)
      | Inr calls \<Rightarrow>
          (case putAll fails dir calls log of
             (Some err, log') \<Rightarrow> (Some err, log')
           | (None, log') \<Rightarrow> buildLoop L b ds (recordingSink fails) log'))"
  by (simp add: dirPlan_def Build_trace split: option.splits sum.splits)

lemma buildLoop_prefix:
  "buildLoop L b ds (recordingSink fails) log = (e, log') \<Longrightarrow>
     \<exists>n. log' = log @ take n (plannedCalls L b ds)"
proof (induction ds arbitrary: log)
  case Nil
  then show ?case by simp
next
  case (Cons dir ds)
  show ?case
  proof (cases "dirPlan L b dir")
    case (Inl err)
    with Cons.prems[unfolded buildLoop_step] show ?thesis by simp
  next
    case (Inr calls)
    obtain e1 log1 where p: "putAll fails dir calls log = (e1, log1)"
      by (cases "putAll fails dir calls log")
    from putAll_prefix[OF p] obtain n where n: "n \<le> length calls"
      "log1 = log @ tagCalls dir (take n calls)" "e1 = None \<longrightarrow> n = length calls" by blast
    have t: "tagCalls dir (take n calls) = take n (tagCalls dir calls)"
      by (simp add: tagCalls_def take_map)
    show ?thesis
    proof (cases e1)
      case (Some err)
      with Cons.prems[unfolded buildLoop_step] Inr p have "log' = log1" by simp
      with n t show ?thesis
        by (intro exI[of _ n]) (simp add: Inr tagCalls_def)
    next
      case None
      with Cons.prems[unfolded buildLoop_step] Inr p
      have "buildLoop L b ds (recordingSink fails) log1 = (e, log')"
        by simp
      from Cons.IH[OF this] obtain m where "log' = log1 @ take m (plannedCalls L b ds)" by blast
      with n None show ?thesis
        by (intro exI[of _ "length calls + m"]) (simp add: Inr tagCalls_def)
    qed
  qed
qed

lemma Builder_Build_prefix:
  "Builder_Build L b (recordingSink fails) [] = (e, log) \<Longrightarrow>
     \<exists>n. log = take n (plannedCalls L b (sort (map fst (dirs b))))"
  using buildLoop_prefix[of L b "sort (map fst (dirs b))" fails "[]" e log]
  by (simp add: Builder_Build_def)


lemma initialUniq_eq: "initialUniq k = insert ''kustomization.yaml'' (set (resources k))"
  by (simp add: initialUniq_def fillMap_eq[unfolded fillMap_def] Un_commute)

lemma map_fst_objectCalls: "map fst (objectCalls f objects) = map f objects"
  by (simp add: objectCalls_def comp_def)

lemma map_fst_entryCalls: "map fst (entryCalls f objects) = entryNames f objects"
  by (simp add: entryCalls_def entryNames_def map_concat comp_def case_prod_unfold)

lemma fileCalls_names_distinct:
  assumes "resolveNames L k = Inr fs"
  shows "distinct (map fst (fileCalls fs k @ [(''kustomization.yaml'', m)]))"
proof -
  obtain f1 f2 f3 where fs: "fs = (f1, f2, f3)" by (cases fs)
  from assms[unfolded fs resolveNames_Inr] obtain u1 u2 u3 where
    s1: "selectUniqueFilenameFuncForK8sObjects L (k8sObjects k) (initialUniq k) = Some (f1, u1)"
    and s2: "selectUniqueFilenameFuncForFiles L (configMapObjects k) u1 = Some (f2, u2)"
    and s3: "selectUniqueFilenameFuncForFiles L (secretObjects k) u2 = Some (f3, u3)"
    by blast
  note a1 = selectLoopK8s_sound[OF s1[unfolded selectUniqueFilenameFuncForK8sObjects_def]]
  note a2 = selectLoopFiles_sound[OF s2[unfolded selectUniqueFilenameFuncForFiles_def]]
  note a3 = selectLoopFiles_sound[OF s3[unfolded selectUniqueFilenameFuncForFiles_def]]
  have ky: "''kustomization.yaml'' \<in> initialUniq k" by (simp add: initialUniq_eq)
  from a1 a2 a3 ky show ?thesis
    unfolding fs fileCalls_def acceptable_def
    by (auto simp: map_fst_objectCalls map_fst_entryCalls)
qed

lemma dirPlan_Inr:
  "dirPlan L b dir = Inr calls \<Longrightarrow>
     \<exists>k fs. map_of (dirs b) dir = Some k \<and> resolveNames L k = Inr fs
       \<and> calls = fileCalls fs k @ [(''kustomization.yaml'', manifestBytes L fs k)]"
  by (auto simp: dirPlan_def split: option.splits sum.splits)

lemma dirPlan_distinct: "dirPlan L b dir = Inr calls \<Longrightarrow> distinct (map fst calls)"
  by (auto dest!: dirPlan_Inr simp: fileCalls_names_distinct simp del: map_append)

lemma callKey_tagCalls: "map callKey (tagCalls dir calls) = map (\<lambda>c. (dir, fst c)) calls"
  by (simp add: tagCalls_def callKey_def case_prod_unfold)

lemma fst_tagCalls: "c \<in> set (tagCalls dir calls) \<Longrightarrow> fst c = dir"
  by (auto simp: tagCalls_def)

lemma planned_dirs: "c \<in> set (plannedCalls L b ds) \<Longrightarrow> fst c \<in> set ds"
  by (induction ds) (auto split: sum.splits dest: fst_tagCalls)

lemma planned_distinct: "distinct ds \<Longrightarrow> distinct (map callKey (plannedCalls L b ds))"
proof (induction ds)
  case Nil
  then show ?case by simp
next
  case (Cons dir ds)
  show ?case
  proof (cases "dirPlan L b dir")
    case (Inl err)
    then show ?thesis by simp
  next
    case (Inr calls)
    have d1: "distinct (map callKey (tagCalls dir calls))"
      using dirPlan_distinct[OF Inr]
      by (simp add: callKey_tagCalls distinct_map inj_on_def)
    have d2: "distinct (map callKey (plannedCalls L b ds))"
      using Cons by simp
    have "set (map callKey (tagCalls dir calls)) \<inter> set (map callKey (plannedCalls L b ds)) = {}"
    proof (rule ccontr)
      assume "set (map callKey (tagCalls dir calls)) \<inter> set (map callKey (plannedCalls L b ds)) \<noteq> {}"
      then obtain x where x1: "x \<in> set (map callKey (tagCalls dir calls))"
        and x2: "x \<in> set (map callKey (plannedCalls L b ds))" by blast
      from x1 obtain c where "c \<in> set (tagCalls dir calls)" "x = callKey c" by auto
      then have "fst x = dir" by (simp add: callKey_def fst_tagCalls)
      moreover from x2 obtain c' where "c' \<in> set (plannedCalls L b ds)" "x = callKey c'" by auto
      then have "fst x \<in> set ds" by (simp add: callKey_def planned_dirs)
      ultimately show False using Cons.prems by simp
    qed
    with d1 d2 show ?thesis by (simp add: Inr)
  qed
qed


lemma length_tagCalls [simp]: "length (tagCalls dir calls) = length calls"
  by (simp add: tagCalls_def)


lemmas build_defs = Builder_Build_def kustomizationBuilder_Build_def initialUniq_def
  writeResources_def writeGenerators_def writeFiles_def writeMapFields_def recordingSink_def
  selectUniqueFilenameFuncForFiles_def generatorObjectFilenameFuncs_def isUniqueFiles_eq
  entryNames_def getGeneratorObjectShortFilenameByKey_def
  getGeneratorObjectShortFilenameByKeyAndKind_def getGeneratorObjectFilenameByKeyAndName_def
  getGeneratorObjectFilenameFull_def removeGeneratorObjectPrefix_def lcpLoop.simps Let_def
  charEqual_def

lemma example_run:
  "Builder_Build exampleLib exampleBuilder (recordingSink (\<lambda>log call. None)) [] = (None, exampleLog)"
  by (simp add: build_defs resolver_defs name_defs example_defs exampleBuilder_def exampleLog_def
        manifestHeader_def)

lemma exampleBuilder_distinct: "distinct (map fst (dirs exampleBuilder))"
  by (simp add: exampleBuilder_def)


subsection \<open>Reserved names\<close>

text \<open>
  C1, as the code has it. The reserved names belong to one directory: \<open>Build\<close> of a
  directory starts from the manifest's name and the directory's sub-directory references.
  The names selected for the generic resources are added before the ConfigMap entries are
  resolved, and those before the Secret entries: the set only grows, and each batch avoids
  the names reserved before it in this directory.
\<close>

theorem reserved_names_per_directory:
  assumes "selectUniqueFilenameFuncForK8sObjects L (k8sObjects k) (initialUniq k) = Some (f1, u1)"
    and "selectUniqueFilenameFuncForFiles L (configMapObjects k) u1 = Some (f2, u2)"
    and "selectUniqueFilenameFuncForFiles L (secretObjects k) u2 = Some (f3, u3)"
  shows "initialUniq k = insert ''kustomization.yaml'' (set (resources k))
       \<and> u1 = initialUniq k \<union> set (map f1 (k8sObjects k))
       \<and> set (map f1 (k8sObjects k)) \<inter> initialUniq k = {}
       \<and> u2 = u1 \<union> set (entryNames f2 (configMapObjects k))
       \<and> set (entryNames f2 (configMapObjects k)) \<inter> u1 = {}
       \<and> u3 = u2 \<union> set (entryNames f3 (secretObjects k))
       \<and> set (entryNames f3 (secretObjects k)) \<inter> u2 = {}"
  using selectLoopK8s_sound[OF assms(1)[unfolded selectUniqueFilenameFuncForK8sObjects_def]]
    selectLoopFiles_sound[OF assms(2)[unfolded selectUniqueFilenameFuncForFiles_def]]
    selectLoopFiles_sound[OF assms(3)[unfolded selectUniqueFilenameFuncForFiles_def]]
  by (simp add: initialUniq_eq acceptable_def)

theorem reserved_names_per_directory_witness:
  "initialUniq shopDir = {''kustomization.yaml''}
   \<and> map_option snd (selectUniqueFilenameFuncForK8sObjects exampleLib (k8sObjects shopDir)
         (initialUniq shopDir)) = Some ({''kustomization.yaml''} \<union> {''deployment.yaml''})
   \<and> map_option snd (selectUniqueFilenameFuncForFiles exampleLib (configMapObjects shopDir)
         ({''kustomization.yaml''} \<union> {''deployment.yaml''}))
       = Some (({''kustomization.yaml''} \<union> {''deployment.yaml''}) \<union> {''index.html'', ''about.html''})"
proof -
  obtain f1 u1 where s1: "selectUniqueFilenameFuncForK8sObjects exampleLib (k8sObjects shopDir)
         (initialUniq shopDir) = Some (f1, u1)"
    and n1: "map f1 (k8sObjects shopDir) = [''deployment.yaml'']"
    by (simp add: build_defs resolver_defs name_defs example_defs shopDir_def)
  obtain f2 u2 where s2: "selectUniqueFilenameFuncForFiles exampleLib (configMapObjects shopDir) u1
         = Some (f2, u2)"
    and n2: "entryNames f2 (configMapObjects shopDir) = [''index.html'', ''about.html'']"
    using selectLoopK8s_sound[OF s1[unfolded selectUniqueFilenameFuncForK8sObjects_def]] n1
    by (simp add: build_defs resolver_defs name_defs example_defs shopDir_def)
  obtain f3 u3 where s3: "selectUniqueFilenameFuncForFiles exampleLib (secretObjects shopDir) u2
         = Some (f3, u3)"
    by (simp add: build_defs resolver_defs shopDir_def)
  note r = reserved_names_per_directory [OF s1 s2 s3]
  have "resources shopDir = []" by (simp add: shopDir_def)
  with r have i: "initialUniq shopDir = {''kustomization.yaml''}" by simp
  from r n1 i have u1: "u1 = {''kustomization.yaml''} \<union> {''deployment.yaml''}" by auto
  from r n2 u1 have u2: "u2 = ({''kustomization.yaml''} \<union> {''deployment.yaml''})
      \<union> {''index.html'', ''about.html''}" by auto
  from s1 u1 have "map_option snd (selectUniqueFilenameFuncForK8sObjects exampleLib
      (k8sObjects shopDir) (initialUniq shopDir)) = Some ({''kustomization.yaml''} \<union> {''deployment.yaml''})"
    by simp
  moreover from s2 u1 u2 have "map_option snd (selectUniqueFilenameFuncForFiles exampleLib
      (configMapObjects shopDir) ({''kustomization.yaml''} \<union> {''deployment.yaml''}))
       = Some (({''kustomization.yaml''} \<union> {''deployment.yaml''}) \<union> {''index.html'', ''about.html''})"
    by simp
  ultimately show ?thesis using i by blast
qed

text \<open>
  C1 as stated fails: the reserved names are not shared between directories. In the run
  below \<open>deployment.yaml\<close> is reserved while the directory \<open>api\<close> is resolved, and the
  directory \<open>shop\<close>, resolved after it, gets the same name.
\<close>

theorem reserved_names_not_shared_counterexample:
  "Builder_Build exampleLib exampleBuilder (recordingSink (\<lambda>log call. None)) [] = (None, exampleLog)
   \<and> exampleLog ! 1 = (''api'', ''deployment.yaml'', Raw apiDeployment)
   \<and> exampleLog ! 3 = (''shop'', ''deployment.yaml'', Raw shopDeployment)"
  using example_run
  by (simp add: exampleLog_def example_defs)


subsection \<open>Distinct names at the sink\<close>

text \<open>
  C6. In a run of \<open>Builder.Build\<close> on a sink that records its calls, whatever calls the
  sink fails, no two calls have the same directory and filename; so the filenames written
  to one directory, the manifest's among them, are pairwise distinct. The assumption says
  that \<open>dirs\<close> is a Go map.
\<close>

theorem sink_names_distinct:
  assumes "distinct (map fst (dirs b))"
    and "Builder_Build L b (recordingSink fails) [] = (err, log)"
  shows "distinct (map callKey log)
       \<and> (\<forall>dir. distinct (map (\<lambda>c. fst (snd c)) (filter (\<lambda>c. fst c = dir) log)))"
proof -
  from Builder_Build_prefix[OF assms(2)] obtain n where
    log: "log = take n (plannedCalls L b (sort (map fst (dirs b))))" by blast
  have "distinct (sort (map fst (dirs b)))" using assms(1) by simp
  then have "distinct (map callKey (plannedCalls L b (sort (map fst (dirs b)))))"
    by (rule planned_distinct)
  then have d: "distinct (map callKey log)"
    unfolding log by (simp add: take_map[symmetric])
  have "distinct (map (\<lambda>c. fst (snd c)) (filter (\<lambda>c. fst c = dir) log))" for dir
  proof -
    from d have "distinct (map callKey (filter (\<lambda>c. fst c = dir) log))"
      by (rule distinct_map_filter)
    then have "distinct (filter (\<lambda>c. fst c = dir) log)"
      and "inj_on callKey (set (filter (\<lambda>c. fst c = dir) log))"
      by (simp_all add: distinct_map)
    moreover have "inj_on (\<lambda>c. fst (snd c)) (set (filter (\<lambda>c. fst c = dir) log))"
      using calculation(2) by (auto simp: inj_on_def callKey_def)
    ultimately show ?thesis by (simp add: distinct_map)
  qed
  with d show ?thesis by blast
qed


theorem sink_names_distinct_witness:
  "distinct (map callKey exampleLog)
   \<and> distinct (map (\<lambda>c. fst (snd c)) (filter (\<lambda>c. fst c = ''shop'') exampleLog))"
  using sink_names_distinct [OF exampleBuilder_distinct example_run]
  by blast


subsection \<open>The manifest is written last\<close>






subsection \<open>A key in both maps of a ConfigMap or a Secret\<close>

text \<open>
  What the handlers store, and that a successful run writes every planned call.
\<close>

lemma getKustomization_Inr:
  assumes "map_of (dirs b) [] \<noteq> None"
  shows "\<exists>b1. getKustomization b obj = Inr (b1, getTargetDir obj)
           \<and> map_of (dirs b1) (getTargetDir obj)
               = Some (case map_of (dirs b) (getTargetDir obj) of
                         None \<Rightarrow> newKustomizationBuilder | Some k \<Rightarrow> k)
           \<and> (distinct (map fst (dirs b)) \<longrightarrow> distinct (map fst (dirs b1)))"
proof (cases "map_of (dirs b) (getTargetDir obj)")
  case None
  from assms obtain root where root: "map_of (dirs b) [] = Some root" by auto
  with None have ne: "getTargetDir obj \<noteq> []" by auto
  show ?thesis using None root ne
    by (simp add: getKustomization_def Let_def map_of_mapAssign distinct_mapAssign)
next
  case (Some k)
  then show ?thesis by (simp add: getKustomization_def Let_def)
qed

lemma handler_stores:
  assumes "map_of (dirs b) [] \<noteq> None"
  shows "\<exists>b'. (case getKustomization b obj of
                 Inl err \<Rightarrow> Inl err
               | Inr (b1, dir) \<Rightarrow> atDir b1 dir meth) = Inr b'
           \<and> map_of (dirs b') (getTargetDir obj)
               = Some (meth (case map_of (dirs b) (getTargetDir obj) of
                                 None \<Rightarrow> newKustomizationBuilder | Some k \<Rightarrow> k))
           \<and> (distinct (map fst (dirs b)) \<longrightarrow> distinct (map fst (dirs b')))"
proof -
  from getKustomization_Inr[OF assms, of obj] obtain b1 where
    g: "getKustomization b obj = Inr (b1, getTargetDir obj)"
    and m: "map_of (dirs b1) (getTargetDir obj)
               = Some (case map_of (dirs b) (getTargetDir obj) of
                         None \<Rightarrow> newKustomizationBuilder | Some k \<Rightarrow> k)"
    and d: "distinct (map fst (dirs b)) \<longrightarrow> distinct (map fst (dirs b1))"
    by blast
  show ?thesis
    using m d by (simp add: g atDir_def map_of_mapAssign distinct_mapAssign)
qed








text \<open>
  In a Builder that has its root entry, the handlers of ConfigMaps and Secrets return an
  error exactly when a base64 value of the resource does not decode; a key in both maps
  raises none.
\<close>

lemma handler_error:
  assumes "map_of (dirs b) [] \<noteq> None"
  shows "(\<exists>e. handleConfigMap L b obj = Inl e) \<longleftrightarrow>
           (\<exists>(k, v) \<in> set (BinaryData obj). \<exists>e. base64Decode L v = Inl e)"
    and "(\<exists>e. handleSecret L b obj = Inl e) \<longleftrightarrow>
           (\<exists>(k, v) \<in> set (Data obj). \<exists>e. base64Decode L v = Inl e)"
proof -
  note st = handler_stores[OF assms, where obj = obj]
  show "(\<exists>e. handleConfigMap L b obj = Inl e) \<longleftrightarrow>
           (\<exists>(k, v) \<in> set (BinaryData obj). \<exists>e. base64Decode L v = Inl e)"
  proof (cases "assignDecoded L (BinaryData obj) (assignPlain (Data obj) [])")
    case (Inl e)
    then have "handleConfigMap L b obj = Inl e"
      by (simp add: handleConfigMap_def configMapFileGroup_def)
    with Inl assignDecoded_fails[of L "BinaryData obj" "assignPlain (Data obj) []"]
    show ?thesis by auto
  next
    case (Inr fs)
    from st[of "AddConfigMapObjects \<lparr>k8sObj = obj, files = fs\<rparr>"] Inr
    obtain b' where "handleConfigMap L b obj = Inr b'"
      by (auto simp: handleConfigMap_def configMapFileGroup_def)
    with Inr assignDecoded_fails[of L "BinaryData obj" "assignPlain (Data obj) []"]
    show ?thesis by auto
  qed
  show "(\<exists>e. handleSecret L b obj = Inl e) \<longleftrightarrow>
           (\<exists>(k, v) \<in> set (Data obj). \<exists>e. base64Decode L v = Inl e)"
  proof (cases "assignDecoded L (Data obj) []")
    case (Inl e)
    then have "handleSecret L b obj = Inl e"
      by (simp add: handleSecret_def secretFileGroup_def)
    with Inl assignDecoded_fails[of L "Data obj" "[]"]
    show ?thesis by auto
  next
    case (Inr fs)
    from st[of "AddSecretObjects \<lparr>k8sObj = obj, files = assignPlain (StringData obj) fs\<rparr>"] Inr
    obtain b' where "handleSecret L b obj = Inr b'"
      by (auto simp: handleSecret_def secretFileGroup_def)
    with Inr assignDecoded_fails[of L "Data obj" "[]"]
    show ?thesis by auto
  qed
qed

text \<open>
  The two assumptions that the next theorem makes on the Builder hold for every Builder
  that \<open>Process\<close> makes from \<open>NewBuilder\<close>: it has its root entry, and the keys
  of \<open>dirs\<close> are distinct.
\<close>

lemma handler_keeps_root:
  assumes "map_of (dirs b) [] \<noteq> None" and "distinct (map fst (dirs b))"
    and "(case getKustomization b obj of
            Inl err \<Rightarrow> Inl err
          | Inr (b1, dir) \<Rightarrow> atDir b1 dir meth) = Inr b'"
  shows "map_of (dirs b') [] \<noteq> None \<and> distinct (map fst (dirs b'))"
proof -
  from assms(1) obtain root where root: "map_of (dirs b) [] = Some root" by auto
  show ?thesis
  proof (cases "map_of (dirs b) (getTargetDir obj)")
    case None
    with root have ne: "getTargetDir obj \<noteq> []" by auto
    from assms(3) None root ne assms(2) show ?thesis
      by (auto simp: getKustomization_def Let_def atDir_def map_of_mapAssign distinct_mapAssign
            split: option.splits if_splits)
  next
    case (Some k)
    with assms(3) root assms(2) show ?thesis
      by (auto simp: getKustomization_def Let_def atDir_def map_of_mapAssign distinct_mapAssign
            split: option.splits if_splits)
  qed
qed

lemma handleResourceType_keeps_root:
  assumes "map_of (dirs b) [] \<noteq> None" and "distinct (map fst (dirs b))"
    and "handleResourceType L b obj = Inr b'"
  shows "map_of (dirs b') [] \<noteq> None \<and> distinct (map fst (dirs b'))"
proof -
  have "\<exists>meth. (case getKustomization b obj of
            Inl err \<Rightarrow> Inl err
          | Inr (b1, dir) \<Rightarrow> atDir b1 dir meth) = Inr b'"
  proof (cases "APIVersion obj = ''v1'' \<and> Kind obj = ''ConfigMap''")
    case True
    with assms(3) have h: "handleConfigMap L b obj = Inr b'"
      by (simp add: handleResourceType_def)
    then obtain fg where "configMapFileGroup L obj = Inr fg"
      by (cases "configMapFileGroup L obj") (simp_all add: handleConfigMap_def)
    with h show ?thesis by (auto simp: handleConfigMap_def)
  next
    case False
    show ?thesis
    proof (cases "APIVersion obj = ''v1'' \<and> Kind obj = ''Secret''")
      case True
      with assms(3) False have h: "handleSecret L b obj = Inr b'"
        by (simp add: handleResourceType_def)
      then obtain fg where "secretFileGroup L obj = Inr fg"
        by (cases "secretFileGroup L obj") (simp_all add: handleSecret_def)
      with h show ?thesis by (auto simp: handleSecret_def)
    next
      case other: False
      with assms(3) False have "handleGenericResource b obj = Inr b'"
        by (simp add: handleResourceType_def)
      then show ?thesis by (auto simp: handleGenericResource_def)
    qed
  qed
  then obtain meth where "(case getKustomization b obj of
            Inl err \<Rightarrow> Inl err
          | Inr (b1, dir) \<Rightarrow> atDir b1 dir meth) = Inr b'" by blast
  with assms(1,2) show ?thesis by (rule handler_keeps_root)
qed

lemma processLoop_keeps_root:
  "map_of (dirs b) [] \<noteq> None \<Longrightarrow> distinct (map fst (dirs b)) \<Longrightarrow>
     processLoop L b tokens = Inr b' \<Longrightarrow>
     map_of (dirs b') [] \<noteq> None \<and> distinct (map fst (dirs b'))"
proof (induction tokens arbitrary: b)
  case Nil
  then show ?case by simp
next
  case (Cons token tokens)
  show ?case
  proof (cases "processLoop L b (token # tokens) = processLoop L b tokens")
    case True
    with Cons.prems(3) have "processLoop L b tokens = Inr b'" by metis
    with Cons.prems(1,2) show ?thesis by (rule Cons.IH)
  next
    case False
    with Cons.prems(3) obtain obj b1 where
      h: "handleResourceType L b obj = Inr b1" and r: "processLoop L b1 tokens = Inr b'"
      by (auto simp: Let_def split: if_splits prod.splits option.splits sum.splits)
    note k = handleResourceType_keeps_root[OF Cons.prems(1,2) h]
    show ?thesis by (rule Cons.IH[OF conjunct1[OF k] conjunct2[OF k] r])
  qed
qed

lemma Process_keeps_root:
  "Process L NewBuilder stream = Inr b \<Longrightarrow>
     map_of (dirs b) [] \<noteq> None \<and> distinct (map fst (dirs b))"
  unfolding Process_def
  by (rule processLoop_keeps_root[of NewBuilder]) (simp_all add: NewBuilder_def)



subsection \<open>The iteration order of the file maps does not change the names\<close>

text \<open>
  The model visits the entries of a \<open>files\<close> map in one order. The selection does not
  depend on it: with the entries of every map permuted, the same filename function is
  selected and the same names are reserved, so a directory gets the same file writes, as a
  multiset, and only their order and the text of the manifest can differ.
\<close>

lemma acceptable_mset: "mset xs = mset ys \<Longrightarrow> acceptable xs u = acceptable ys u"
proof -
  assume m: "mset xs = mset ys"
  then have "set xs = set ys" by (rule mset_eq_setD)
  moreover from m have "distinct xs = distinct ys" by (rule mset_eq_imp_distinct_iff)
  ultimately show ?thesis by (simp add: acceptable_def)
qed

lemma entryNames_mset:
  "sameFileGroups xs ys \<Longrightarrow> mset (entryNames fn xs) = mset (entryNames fn ys)"
  unfolding sameFileGroups_def
proof (induction xs ys rule: list_all2_induct)
  case Nil
  then show ?case by (simp add: entryNames_def)
next
  case (Cons x xs y ys)
  have "mset (map (\<lambda>(key, payload). fn (k8sObj x) key) (files x))
      = mset (map (\<lambda>(key, payload). fn (k8sObj y) key) (files y))"
    using Cons.hyps(1) by simp
  with Cons.IH show ?case by (simp add: entryNames_def)
qed

lemma commonPrefix2_maximal:
  "k \<le> length p \<Longrightarrow> k \<le> length t \<Longrightarrow> map sepClass (take k p) = map sepClass (take k t) \<Longrightarrow>
     k \<le> length (commonPrefix2 p t) \<and> take k (commonPrefix2 p t) = take k p"
proof (induction p t arbitrary: k rule: commonPrefix2.induct)
  case (1 a as b bs)
  show ?case
  proof (cases k)
    case 0
    then show ?thesis by simp
  next
    case (Suc k')
    with "1.prems" have "sepClass a = sepClass b"
      and "map sepClass (take k' as) = map sepClass (take k' bs)"
      and "k' \<le> length as" "k' \<le> length bs"
      by simp_all
    with "1.IH"[of k'] Suc show ?thesis by simp
  qed
qed simp_all

lemma fold_commonPrefix2_maximal:
  "k \<le> length p \<Longrightarrow> \<forall>t \<in> set ts. k \<le> length t \<and> map sepClass (take k t) = map sepClass (take k p) \<Longrightarrow>
     k \<le> length (fold (\<lambda>t p. commonPrefix2 p t) ts p)"
proof (induction ts arbitrary: p)
  case Nil
  then show ?case by simp
next
  case (Cons t ts)
  from Cons.prems have kt: "k \<le> length t" and eq: "map sepClass (take k p) = map sepClass (take k t)"
    by simp_all
  note m = commonPrefix2_maximal[OF Cons.prems(1) kt eq]
  have "\<forall>t' \<in> set ts. k \<le> length t'
      \<and> map sepClass (take k t') = map sepClass (take k (commonPrefix2 p t))"
    using Cons.prems(2) m by simp
  with Cons.IH[of "commonPrefix2 p t"] m show ?case by simp
qed

lemma specCommonPrefix_commonLen:
  "names \<noteq> [] \<Longrightarrow> commonLen (length (specCommonPrefix names)) names"
  unfolding commonLen_def
proof (intro ballI conjI)
  fix t assume "t \<in> set names"
  from specCommonPrefix_common[OF this]
  show "length (specCommonPrefix names) \<le> length t" by simp
next
  fix t s assume "t \<in> set names" "s \<in> set names"
  from specCommonPrefix_common[OF this(1)] specCommonPrefix_common[OF this(2)]
  show "map sepClass (take (length (specCommonPrefix names)) t)
      = map sepClass (take (length (specCommonPrefix names)) s)" by simp
qed

lemma specCommonPrefix_maximal:
  assumes "commonLen k names" and "names \<noteq> []"
  shows "k \<le> length (specCommonPrefix names)"
proof -
  from assms(2) obtain s0 ss where n: "names = s0 # ss" by (cases names) auto
  have s0: "s0 \<in> set names" by (simp add: n)
  note c = assms(1)[unfolded commonLen_def]
  from c s0 have k0: "k \<le> length s0" by blast
  have "\<forall>t \<in> set ss. k \<le> length t \<and> map sepClass (take k t) = map sepClass (take k s0)"
  proof
    fix t assume "t \<in> set ss"
    then have "t \<in> set names" by (simp add: n)
    with c s0 show "k \<le> length t \<and> map sepClass (take k t) = map sepClass (take k s0)"
      by blast
  qed
  with k0 have "k \<le> length (fold (\<lambda>t p. commonPrefix2 p t) ss s0)"
    by (rule fold_commonPrefix2_maximal)
  then show ?thesis
    by (simp add: specCommonPrefix_def n)
qed

lemma specCommonPrefix_set:
  assumes "set xs = set ys" and "xs \<noteq> []"
  shows "map sepClass (specCommonPrefix xs) = map sepClass (specCommonPrefix ys)"
proof -
  from assms have ys: "ys \<noteq> []" by auto
  have cl: "commonLen k xs = commonLen k ys" for k
    by (simp add: commonLen_def assms(1))
  have "length (specCommonPrefix xs) \<le> length (specCommonPrefix ys)"
    using specCommonPrefix_maximal[OF _ ys] specCommonPrefix_commonLen[OF assms(2)] cl by blast
  moreover have "length (specCommonPrefix ys) \<le> length (specCommonPrefix xs)"
    using specCommonPrefix_maximal[OF _ assms(2)] specCommonPrefix_commonLen[OF ys] cl by blast
  ultimately have len: "length (specCommonPrefix xs) = length (specCommonPrefix ys)" by simp
  obtain s where s: "s \<in> set xs" using assms(2) by (cases xs) auto
  with assms(1) have s': "s \<in> set ys" by simp
  from specCommonPrefix_common[OF s] specCommonPrefix_common[OF s'] len
  show ?thesis by simp
qed


lemma isSeparator_sepClass: "isSeparator c \<longleftrightarrow> sepClass c = CHR ''-''"
  by (auto simp: isSeparator_def sepClass_def)

lemma specStripLength_class:
  assumes "map sepClass p = map sepClass q"
  shows "specStripLength p = specStripLength q"
proof -
  have len: "length p = length q" using assms by (rule map_eq_imp_length_eq)
  have tw: "length (takeWhile (\<lambda>c. \<not> isSeparator c) (rev xs))
      = length (takeWhile (\<lambda>c. c \<noteq> CHR ''-'') (rev (map sepClass xs)))" for xs
  proof -
    have "takeWhile (\<lambda>c. c \<noteq> CHR ''-'') (map sepClass (rev xs))
        = map sepClass (takeWhile ((\<lambda>c. c \<noteq> CHR ''-'') \<circ> sepClass) (rev xs))"
      by (rule takeWhile_map)
    moreover have "((\<lambda>c. c \<noteq> CHR ''-'') \<circ> sepClass) = (\<lambda>c. \<not> isSeparator c)"
      by (auto simp: isSeparator_sepClass)
    ultimately show ?thesis by (simp add: rev_map)
  qed
  show ?thesis
    unfolding specStripLength_def tw len assms ..
qed

lemma trimPrefix_class:
  assumes "map sepClass q = map sepClass q'"
  shows "trimPrefix s q = trimPrefix s q'"
proof -
  have len: "length q = length q'" using assms by (rule map_eq_imp_length_eq)
  have "sepClass (q ! i) = sepClass (q' ! i)" if "i < length q" for i
  proof -
    from assms have "map sepClass q ! i = map sepClass q' ! i" by simp
    with that len show ?thesis by simp
  qed
  then have "list_all (\<lambda>i. charEqual (s ! i) (q ! i)) [0..<length q]
      = list_all (\<lambda>i. charEqual (s ! i) (q' ! i)) [0..<length q]"
    by (simp add: list_all_iff charEqual_sepClass)
  then show ?thesis
    by (simp add: trimPrefix_def Let_def len)
qed

lemma refinePrefix_mset:
  assumes "mset items = mset items'"
  shows "rel_option (\<lambda>q q'. map sepClass q = map sepClass q')
           (refinePrefix items) (refinePrefix items')"
proof (cases "2 \<le> length items")
  case False
  moreover from assms have len: "length items = length items'" by (rule mset_eq_length)
  ultimately show ?thesis
    by (simp add: refinePrefix_def longestCommonPrefix_short)
next
  case True
  from assms have len: "length items = length items'" by (rule mset_eq_length)
  from assms have set: "set items = set items'" by (rule mset_eq_setD)
  from True have ne: "items \<noteq> []" by auto
  let ?r = "specCommonPrefix items" and ?r' = "specCommonPrefix items'"
  have cls: "map sepClass ?r = map sepClass ?r'" using set ne by (rule specCommonPrefix_set)
  then have nil: "?r = [] \<longleftrightarrow> ?r' = []" by (metis map_is_Nil_conv)
  have k: "specStripLength ?r = specStripLength ?r'" using cls by (rule specStripLength_class)
  have tk: "map sepClass (take n ?r) = map sepClass (take n ?r')" for n
    using cls by (simp add: take_map[symmetric])
  show ?thesis
    using True len nil k tk
    by (simp add: refinePrefix_def longestCommonPrefix_spec indexOfSeparator_spec Let_def)
qed

lemma selectLoopFiles_step:
  "selectLoopFiles (fn # funcs) objects uniq =
     (if acceptable (entryNames fn objects) uniq
      then (case refinePrefix (entryNames fn objects) of
              None \<Rightarrow> Some (fn, uniq \<union> set (entryNames fn objects))
            | Some q \<Rightarrow>
                if acceptable (entryNames (removeGeneratorObjectPrefix fn q) objects) uniq
                then Some (removeGeneratorObjectPrefix fn q,
                           uniq \<union> set (entryNames (removeGeneratorObjectPrefix fn q) objects))
                else Some (fn, uniq \<union> set (entryNames fn objects)))
      else selectLoopFiles funcs objects uniq)"
  by (simp add: isUniqueFiles_eq refinePrefix_def fillMap_eq Let_def)

lemma selectLoopFiles_order:
  assumes "sameFileGroups objects objects'"
  shows "selectLoopFiles funcs objects uniq = selectLoopFiles funcs objects' uniq"
proof (induction funcs)
  case Nil
  then show ?case by simp
next
  case (Cons fn funcs)
  note m = entryNames_mset[OF assms]
  have acc: "acceptable (entryNames g objects) uniq = acceptable (entryNames g objects') uniq" for g
    using m by (rule acceptable_mset)
  have st: "set (entryNames g objects) = set (entryNames g objects')" for g
    using m by (rule mset_eq_setD)
  note r = refinePrefix_mset[OF m[of fn]]
  show ?case
  proof (cases "refinePrefix (entryNames fn objects)")
    case None
    with r have "refinePrefix (entryNames fn objects') = None" by simp
    with None show ?thesis
      unfolding selectLoopFiles_step by (simp add: acc st Cons.IH)
  next
    case (Some q)
    with r obtain q' where q': "refinePrefix (entryNames fn objects') = Some q'"
      and cls: "map sepClass q = map sepClass q'"
      by (auto simp: option_rel_Some1)
    have "removeGeneratorObjectPrefix fn q = removeGeneratorObjectPrefix fn q'"
      by (simp add: removeGeneratorObjectPrefix_def trimPrefix_class[OF cls])
    with Some q' show ?thesis
      unfolding selectLoopFiles_step by (simp add: acc st Cons.IH)
  qed
qed

lemma selectUniqueFilenameFuncForFiles_order:
  "sameFileGroups objects objects' \<Longrightarrow>
     selectUniqueFilenameFuncForFiles L objects uniq = selectUniqueFilenameFuncForFiles L objects' uniq"
  unfolding selectUniqueFilenameFuncForFiles_def by (rule selectLoopFiles_order)


lemma entryCalls_mset:
  "sameFileGroups xs ys \<Longrightarrow> mset (entryCalls f xs) = mset (entryCalls f ys)"
  unfolding sameFileGroups_def
proof (induction xs ys rule: list_all2_induct)
  case Nil
  then show ?case by (simp add: entryCalls_def)
next
  case (Cons x xs y ys)
  have "mset (map (\<lambda>(key, payload). (f (k8sObj x) key, payload)) (files x))
      = mset (map (\<lambda>(key, payload). (f (k8sObj y) key, payload)) (files y))"
    using Cons.hyps(1) by simp
  with Cons.IH show ?case by (simp add: entryCalls_def)
qed

lemma resolveNames_order:
  "sameAggregator k k' \<Longrightarrow> resolveNames L k = resolveNames L k'"
  by (simp add: sameAggregator_def resolveNames_def initialUniq_def
        selectUniqueFilenameFuncForFiles_order[of "configMapObjects k" "configMapObjects k'"]
        selectUniqueFilenameFuncForFiles_order[of "secretObjects k" "secretObjects k'"]
        split: option.splits)

lemma fileCalls_order:
  "sameAggregator k k' \<Longrightarrow> mset (fileCalls fs k) = mset (fileCalls fs k')"
proof -
  assume a: "sameAggregator k k'"
  obtain f1 f2 f3 where fs: "fs = (f1, f2, f3)" by (cases fs)
  from a have "mset (entryCalls f2 (configMapObjects k)) = mset (entryCalls f2 (configMapObjects k'))"
    and "mset (entryCalls f3 (secretObjects k)) = mset (entryCalls f3 (secretObjects k'))"
    and "k8sObjects k = k8sObjects k'"
    by (simp_all add: sameAggregator_def entryCalls_mset)
  then show ?thesis by (simp add: fs fileCalls_def)
qed

lemma shopDir_sameAggregator: "sameAggregator shopDir shopDirSwapped"
  by (simp add: sameAggregator_def sameFileGroups_def shopDir_def shopDirSwapped_def)


subsection \<open>Determinism\<close>

text \<open>The Builder of the examples is what \<open>Process\<close> builds from three documents.\<close>

lemma exampleBuilder_processed:
  "processLoop
     (exampleLib\<lparr>yamlUnmarshal := (\<lambda>data.
        if data = Raw apiDeployment then Inr apiDeployment
        else if data = Raw shopDeployment then Inr shopDeployment
        else if data = Raw shopConfigMap then Inr shopConfigMap
        else Inl (YamlError ''unknown''))\<rparr>)
     NewBuilder [Raw apiDeployment, Raw shopDeployment, Raw shopConfigMap]
   = Inr exampleBuilder"
  by (simp add: example_defs builder_defs exampleBuilder_def configMapFileGroup_def Let_def
        assignPlain_def)


text \<open>
  C2 fails on the code. The two aggregators below hold the same ConfigMap with the same
  \<open>files\<close> map; they differ only in the order in which \<open>range\<close> visits its two
  entries, which the Go runtime chooses at random in every run. The entries are written to
  the sink in that order and listed in the manifest in that order, so two runs on the same
  input produce different bytes for \<open>kustomization.yaml\<close>.
\<close>

theorem manifest_follows_map_iteration_order:
  "map_of (files (hd (configMapObjects shopDir)))
     = map_of (files (hd (configMapObjects shopDirSwapped)))
   \<and> kustomizationBuilder_Build exampleLib shopDir (recordingSink (\<lambda>log call. None) ''shop'') []
     = (None,
        [(''shop'', ''deployment.yaml'', ''kind: Deployment # shop''),
         (''shop'', ''index.html'', ''<h1>hi</h1>''),
         (''shop'', ''about.html'', ''<p>us</p>''),
         (''shop'', ''kustomization.yaml'', shopManifest ''index.html'' ''about.html'')])
   \<and> kustomizationBuilder_Build exampleLib shopDirSwapped (recordingSink (\<lambda>log call. None) ''shop'') []
     = (None,
        [(''shop'', ''deployment.yaml'', ''kind: Deployment # shop''),
         (''shop'', ''about.html'', ''<p>us</p>''),
         (''shop'', ''index.html'', ''<h1>hi</h1>''),
         (''shop'', ''kustomization.yaml'', shopManifest ''about.html'' ''index.html'')])
   \<and> shopManifest ''index.html'' ''about.html'' \<noteq> shopManifest ''about.html'' ''index.html''"
proof -
  have 1: "map_of (files (hd (configMapObjects shopDir)))
     = map_of (files (hd (configMapObjects shopDirSwapped)))"
    by (auto simp: shopDir_def shopDirSwapped_def fun_eq_iff)
  have 2: "kustomizationBuilder_Build exampleLib shopDir (recordingSink (\<lambda>log call. None) ''shop'') []
     = (None,
        [(''shop'', ''deployment.yaml'', ''kind: Deployment # shop''),
         (''shop'', ''index.html'', ''<h1>hi</h1>''),
         (''shop'', ''about.html'', ''<p>us</p>''),
         (''shop'', ''kustomization.yaml'', shopManifest ''index.html'' ''about.html'')])"
    by (simp add: build_defs resolver_defs name_defs example_defs shopDir_def shopManifest_def
          manifestHeader_def)
  have 3: "kustomizationBuilder_Build exampleLib shopDirSwapped (recordingSink (\<lambda>log call. None) ''shop'') []
     = (None,
        [(''shop'', ''deployment.yaml'', ''kind: Deployment # shop''),
         (''shop'', ''about.html'', ''<p>us</p>''),
         (''shop'', ''index.html'', ''<h1>hi</h1>''),
         (''shop'', ''kustomization.yaml'', shopManifest ''about.html'' ''index.html'')])"
    by (simp add: build_defs resolver_defs name_defs example_defs shopDirSwapped_def
          shopManifest_def manifestHeader_def)
  have 4: "shopManifest ''index.html'' ''about.html'' \<noteq> shopManifest ''about.html'' ''index.html''"
    by (simp add: shopManifest_def)
  from 1 2 3 4 show ?thesis by blast
qed


end
